theory Spec2Isabelle
  imports Main
begin

section \<open>The fiber scheduler of \<^verbatim>\<open>src/main.cpp\<close>\<close>

text \<open>
  The program is a single-threaded cooperative scheduler. Its state is a handful of
  globals: the \<^verbatim>\<open>global_scheduler\<close> pointer (the only object ever installed is a
  \<^verbatim>\<open>FiberScheduler\<close>, whose one data member is the ready queue; an
  \<^verbatim>\<open>InlineScheduler\<close> is never created), the static \<^verbatim>\<open>main_loop\<close> context, the
  \<^verbatim>\<open>stack_pool\<close> and the memory obtained from \<^verbatim>\<open>calloc\<close>. The model passes this
  state explicitly.

  Two things of the machine are abstracted. A code address (\<^verbatim>\<open>eip\<close>) is represented by
  what the code at that address does when control arrives there, and a stack pointer
  (\<^verbatim>\<open>esp\<close>) by the stack it points into. A fiber body (a \<^verbatim>\<open>std::function<void()>\<close>)
  is a finite sequence of statements; the statements that matter to the scheduler are the
  calls of \<^verbatim>\<open>schedule\<close> and \<^verbatim>\<open>yield\<close>, all others are updates of the variables the
  closure captured by reference, or assertions on them. A body that never ends, or that
  calls \<^verbatim>\<open>run_global_scheduler\<close> itself, is not represented; output to
  \<^verbatim>\<open>std::cout\<close> is left out.
\<close>

subsection \<open>Data\<close>

type_synonym addr = nat

datatype error =
  RuntimeError string
  | AssertionFailed
  | BadFunctionCall
  | NullDereference
  | WildAccess

text \<open>
  \<open>RuntimeError\<close> is the \<^verbatim>\<open>std::runtime_error\<close> the free functions throw;
  \<open>AssertionFailed\<close> is a failing \<^verbatim>\<open>assert\<close>; \<open>BadFunctionCall\<close> is the call of an
  empty \<^verbatim>\<open>std::function\<close>; \<open>NullDereference\<close> is a member call through a null
  \<^verbatim>\<open>unique_ptr\<close>; \<open>WildAccess\<close> is a read, write or jump through an address that
  designates no object of the model. The last two are undefined behaviour in C++.
\<close>

datatype 'g Fiber =
  Return
  | Update "'g \<Rightarrow> 'g" "'g Fiber"
  | Assert "'g \<Rightarrow> bool" "'g Fiber"
  | CallSchedule "'g Fiber" "'g Fiber"
  | CallYield "'g Fiber"

text \<open>
  \<open>Update f k\<close> runs a statement that changes the captured variables by \<open>f\<close> and goes
  on with \<open>k\<close>; \<open>CallSchedule w k\<close> is \<^verbatim>\<open>schedule(w); k\<close>; \<open>CallYield k\<close> is
  \<^verbatim>\<open>yield(); k\<close>; \<open>Return\<close> is the end of the body.
\<close>

record 'g FiberKeeper =
  fiber :: "'g Fiber option"
  stack :: "addr option"

text \<open>
  \<open>fiber = None\<close> is an empty \<^verbatim>\<open>std::function\<close>, \<open>stack = None\<close> is
  \<^verbatim>\<open>nullptr\<close>.
\<close>

datatype 'g code =
  Null
  | RunFiber
  | RunLoop
  | Resume "'g Fiber"
  | Unreachable

text \<open>
  The values an \<^verbatim>\<open>eip\<close> takes: \<open>Null\<close> is the initial 0; \<open>RunFiber\<close> is
  \<^verbatim>\<open>&run_fiber\<close>; the others are the \<^verbatim>\<open>ret_label\<close> of a \<^verbatim>\<open>switch_context\<close>,
  told apart by the frames it returns into: \<open>RunLoop\<close> returns into \<^verbatim>\<open>run_one\<close> and
  the loop of \<^verbatim>\<open>run\<close>, \<open>Resume k\<close> returns from \<^verbatim>\<open>yield\<close> into a fiber body that
  has \<open>k\<close> left to do, \<open>Unreachable\<close> returns into \<^verbatim>\<open>run_fiber\<close> after its last
  switch, where \<^verbatim>\<open>__builtin_unreachable()\<close> stands.
\<close>

datatype stack_pointer =
  ZeroSP
  | MainStack
  | InBlock addr

record 'g Context =
  eip :: "'g code"
  esp :: stack_pointer

record 'g StackBlock =
  bytes :: nat
  top :: "'g FiberKeeper option"

text \<open>
  A block of memory obtained from \<^verbatim>\<open>calloc\<close>: its size, and what its highest bytes
  hold, where \<^verbatim>\<open>schedule\<close> copies a \<^verbatim>\<open>FiberKeeper\<close>. \<open>top = None\<close> is the
  zero-filled block as \<^verbatim>\<open>calloc\<close> returns it. The pointer that \<^verbatim>\<open>schedule\<close> writes
  just below the copy (the argument of \<^verbatim>\<open>run_fiber\<close>) always designates that copy and
  is not kept separately.
\<close>

record 'g machine =
  global_scheduler :: "'g Context list option"
  main_loop :: "'g Context"
  stacks :: "addr list"
  heap :: "'g StackBlock list"
  vars :: 'g

text \<open>
  \<open>global_scheduler = None\<close> is the null \<^verbatim>\<open>unique_ptr\<close>; \<open>Some q\<close> is a
  \<^verbatim>\<open>FiberScheduler\<close> whose \<^verbatim>\<open>queue\<close> holds \<open>q\<close>, front first. \<open>stacks\<close> is the
  vector of \<^verbatim>\<open>stack_pool\<close>. \<open>heap\<close> lists the blocks \<^verbatim>\<open>calloc\<close> has returned so
  far; the address of a block is its position in the list. \<open>vars\<close> are the variables
  the fiber bodies captured by reference.
\<close>

definition queue :: "'g machine \<Rightarrow> 'g Context list" where
  "queue m = (case global_scheduler m of None \<Rightarrow> [] | Some q \<Rightarrow> q)"

definition initial :: "'g \<Rightarrow> 'g machine" where
  "initial g =
     \<lparr>global_scheduler = None, main_loop = \<lparr>eip = Null, esp = ZeroSP\<rparr>,
      stacks = [], heap = [], vars = g\<rparr>"

subsection \<open>StackPool\<close>

definition STACK_SIZE :: nat where
  "STACK_SIZE = 1024 * 1024"

definition calloc :: "nat \<Rightarrow> 'g machine \<Rightarrow> addr \<times> 'g machine" where
  "calloc n m = (length (heap m), m\<lparr>heap := heap m @ [\<lparr>bytes = n, top = None\<rparr>]\<rparr>)"

text \<open>
  \<^verbatim>\<open>calloc\<close> returns a zero-filled block that no pointer designates yet. The source does
  not check for a null result, and the model has none.
\<close>

definition alloc :: "'g machine \<Rightarrow> addr \<times> 'g machine" where
  "alloc m =
     (if stacks m \<noteq> [] then (last (stacks m), m\<lparr>stacks := butlast (stacks m)\<rparr>)
      else calloc STACK_SIZE m)"

definition free :: "addr \<Rightarrow> 'g machine \<Rightarrow> 'g machine" where
  "free a m = m\<lparr>stacks := stacks m @ [a]\<rparr>"

subsection \<open>FiberKeeper\<close>

definition FiberKeeper_new :: "'g Fiber \<Rightarrow> 'g machine \<Rightarrow> 'g FiberKeeper \<times> 'g machine" where
  "FiberKeeper_new f m = (case alloc m of (a, m') \<Rightarrow> (\<lparr>fiber = Some f, stack = Some a\<rparr>, m'))"

definition FiberKeeper_move :: "'g FiberKeeper \<Rightarrow> 'g FiberKeeper \<times> 'g FiberKeeper" where
  "FiberKeeper_move other =
     (\<lparr>fiber = fiber other, stack = stack other\<rparr>, other\<lparr>fiber := None, stack := None\<rparr>)"

text \<open>
  The move constructor returns the new object and the state it leaves \<open>other\<close> in.
\<close>

definition FiberKeeper_destroy :: "'g FiberKeeper \<Rightarrow> 'g machine \<Rightarrow> 'g machine" where
  "FiberKeeper_destroy fk m = (case stack fk of None \<Rightarrow> m | Some a \<Rightarrow> free a m)"

subsection \<open>Context switch\<close>

definition switch_context :: "'g Context \<Rightarrow> 'g Context \<Rightarrow> 'g Context \<times> 'g Context" where
  "switch_context slot here = (here, slot)"

text \<open>
  \<^verbatim>\<open>slot.switch_context()\<close>, executed at the point \<open>here\<close>: the assembly exchanges
  \<^verbatim>\<open>esp\<close> with the slot's, loads the slot's \<^verbatim>\<open>eip\<close>, stores \<^verbatim>\<open>ret_label\<close> in its
  place and calls the loaded address. The result is the new content of the slot and the
  context control goes to.
\<close>

definition scheduler_context :: "'g Context" where
  "scheduler_context = \<lparr>eip = RunLoop, esp = MainStack\<rparr>"

definition in_run_loop :: "'g Context \<Rightarrow> bool" where
  "in_run_loop c =
     (case eip c of
        RunLoop \<Rightarrow> (case esp c of MainStack \<Rightarrow> True | _ \<Rightarrow> False)
      | _ \<Rightarrow> False)"

text \<open>
  \<open>scheduler_context\<close> is the point in \<^verbatim>\<open>run_one\<close> where the scheduler switches
  away; \<open>in_run_loop c\<close> tests that \<open>c\<close> is that point.
\<close>

subsection \<open>FiberScheduler\<close>

text \<open>
  The methods below are those of the installed \<^verbatim>\<open>FiberScheduler\<close>: they read and
  write its queue through \<open>queue\<close> and \<open>global_scheduler\<close>. What a call through a null
  \<^verbatim>\<open>global_scheduler\<close> does is decided in the free functions, where the source decides
  it.
\<close>

definition poke :: "addr \<Rightarrow> 'g FiberKeeper \<Rightarrow> 'g machine \<Rightarrow> error + 'g machine" where
  "poke a fk m =
     (if a < length (heap m) then Inr (m\<lparr>heap := (heap m)[a := (heap m ! a)\<lparr>top := Some fk\<rparr>]\<rparr>)
      else Inl WildAccess)"

definition peek :: "addr \<Rightarrow> 'g machine \<Rightarrow> error + 'g FiberKeeper" where
  "peek a m =
     (if a < length (heap m) then
        (case top (heap m ! a) of None \<Rightarrow> Inr \<lparr>fiber = None, stack = None\<rparr> | Some fk \<Rightarrow> Inr fk)
      else Inl WildAccess)"

text \<open>
  \<open>poke\<close> is the \<^verbatim>\<open>memcpy\<close> of a \<^verbatim>\<open>FiberKeeper\<close> to the top of block \<open>a\<close>;
  \<open>peek\<close> reads the \<^verbatim>\<open>FiberKeeper\<close> there. Zero bytes read as an empty function and a
  null stack.
\<close>

definition FiberScheduler_schedule :: "'g Fiber \<Rightarrow> 'g machine \<Rightarrow> error + 'g machine" where
  "FiberScheduler_schedule f m =
     (case FiberKeeper_new f m of (fk, m1) \<Rightarrow>
        (case stack fk of
           None \<Rightarrow> Inl WildAccess
         | Some a \<Rightarrow>
             (case poke a fk m1 of
                Inl e \<Rightarrow> Inl e
              | Inr m2 \<Rightarrow>
                  let context = \<lparr>eip = RunFiber, esp = InBlock a\<rparr>;
                      fk0 = \<lparr>fiber = None, stack = None\<rparr>;
                      m3 = m2\<lparr>global_scheduler := Some (queue m2 @ [context])\<rparr>
                  in Inr (FiberKeeper_destroy fk0 m3))))"

text \<open>
  Line by line: \<^verbatim>\<open>FiberKeeper fk(std::move(fiber))\<close>; the copy of \<^verbatim>\<open>fk\<close> to the top
  of its stack; the context with \<^verbatim>\<open>eip = &run_fiber\<close> and \<^verbatim>\<open>esp\<close> in that stack;
  \<^verbatim>\<open>memset(&fk, 0, sizeof(fk))\<close>, after which the local is \<open>fk0\<close>;
  \<^verbatim>\<open>queue.push(context)\<close>; and the destructor of the local at the end of the scope.
\<close>

definition schedule :: "'g Fiber \<Rightarrow> 'g machine \<Rightarrow> error + 'g machine" where
  "schedule f m =
     (if global_scheduler m = None then Inl (RuntimeError ''Global scheduler is empty'')
      else FiberScheduler_schedule f m)"

definition FiberScheduler_yield :: "'g Context \<Rightarrow> 'g machine \<Rightarrow> error + 'g machine" where
  "FiberScheduler_yield here m =
     (let q = queue m @ [main_loop m] in
      case switch_context (last q) here of (slot, target) \<Rightarrow>
        if in_run_loop target
        then Inr (m\<lparr>global_scheduler := Some (butlast q @ [slot])\<rparr>)
        else Inl WildAccess)"

text \<open>
  \<^verbatim>\<open>queue.push(main_loop); queue.back().switch_context();\<close> executed at the point
  \<open>here\<close>. The slot is the back of the queue. \<open>Inr\<close> means that control is back in the
  loop of \<^verbatim>\<open>run\<close>. When \<^verbatim>\<open>main_loop\<close> does not hold the scheduler's context (a call
  from outside a fiber), control goes to address 0 or behind the end of \<^verbatim>\<open>run_fiber\<close>.
\<close>

definition yield :: "'g Context \<Rightarrow> 'g machine \<Rightarrow> error + 'g machine" where
  "yield here m =
     (if global_scheduler m = None then Inl (RuntimeError ''Global scheduler is empty'')
      else FiberScheduler_yield here m)"

definition leave :: "addr \<Rightarrow> 'g machine \<Rightarrow> error + 'g machine" where
  "leave a m =
     (case peek a m of
        Inl e \<Rightarrow> Inl e
      | Inr fk \<Rightarrow>
          let m1 = FiberKeeper_destroy fk m in
          case switch_context (main_loop m1) \<lparr>eip = Unreachable, esp = InBlock a\<rparr> of
            (slot, target) \<Rightarrow>
              if in_run_loop target then Inr (m1\<lparr>main_loop := slot\<rparr>)
              else Inl WildAccess)"

text \<open>
  The end of \<^verbatim>\<open>run_fiber\<close>, on the stack in block \<open>a\<close>:
  \<^verbatim>\<open>fiber.~FiberKeeper(); main_loop.switch_context();\<close>
\<close>

fun exec :: "addr \<Rightarrow> 'g Fiber \<Rightarrow> 'g machine \<Rightarrow> error + 'g machine" where
  "exec a Return m = leave a m"
| "exec a (Update f k) m = exec a k (m\<lparr>vars := f (vars m)\<rparr>)"
| "exec a (Assert p k) m = (if p (vars m) then exec a k m else Inl AssertionFailed)"
| "exec a (CallSchedule w k) m =
     (case schedule w m of Inl e \<Rightarrow> Inl e | Inr m' \<Rightarrow> exec a k m')"
| "exec a (CallYield k) m = yield \<lparr>eip = Resume k, esp = InBlock a\<rparr> m"

text \<open>
  \<open>exec a k m\<close> runs the fiber whose stack is block \<open>a\<close> and which has \<open>k\<close> left to do,
  until it gives control back to the scheduler: at its next \<^verbatim>\<open>yield\<close>, or at the end of
  \<^verbatim>\<open>run_fiber\<close>.
\<close>

definition run_fiber :: "addr \<Rightarrow> 'g machine \<Rightarrow> error + 'g machine" where
  "run_fiber a m =
     (case peek a m of
        Inl e \<Rightarrow> Inl e
      | Inr fk \<Rightarrow> (case fiber fk of None \<Rightarrow> Inl BadFunctionCall | Some f \<Rightarrow> exec a f m))"

definition enter :: "'g Context \<Rightarrow> 'g machine \<Rightarrow> error + 'g machine" where
  "enter target m =
     (case esp target of
        InBlock a \<Rightarrow>
          (case eip target of
             RunFiber \<Rightarrow> run_fiber a m
           | Resume k \<Rightarrow> exec a k m
           | _ \<Rightarrow> Inl WildAccess)
      | _ \<Rightarrow> Inl WildAccess)"

definition run_one :: "'g machine \<Rightarrow> error + 'g machine" where
  "run_one m =
     (case queue m of
        [] \<Rightarrow> Inl AssertionFailed
      | c # q \<Rightarrow>
          let m1 = m\<lparr>main_loop := c, global_scheduler := Some q\<rparr> in
          case switch_context (main_loop m1) scheduler_context of
            (slot, target) \<Rightarrow> enter target (m1\<lparr>main_loop := slot\<rparr>))"

partial_function (option) FiberScheduler_run :: "'g machine \<Rightarrow> (error + 'g machine) option" where
  "FiberScheduler_run m =
     (if queue m = [] then Some (Inr m)
      else case run_one m of
             Inl e \<Rightarrow> Some (Inl e)
           | Inr m' \<Rightarrow> FiberScheduler_run m')"

text \<open>
  The loop of \<^verbatim>\<open>run\<close>. \<open>None\<close> is a loop that never ends, \<open>Some (Inl e)\<close> a run that
  stops in the error \<open>e\<close>, \<open>Some (Inr m')\<close> a return in state \<open>m'\<close>.
\<close>

definition init_global_scheduler :: "'g machine \<Rightarrow> error + 'g machine" where
  "init_global_scheduler m =
     (if queue m \<noteq> [] then Inl AssertionFailed
      else Inr (m\<lparr>global_scheduler := Some []\<rparr>))"

text \<open>
  The assignment destroys the scheduler installed before, if any, whose destructor asserts
  that its queue is empty.
\<close>

definition run_global_scheduler :: "'g machine \<Rightarrow> (error + 'g machine) option" where
  "run_global_scheduler m =
     (if global_scheduler m = None then Some (Inl NullDereference)
      else FiberScheduler_run m)"

subsection \<open>The test programs\<close>

fun schedule_all :: "'g Fiber list \<Rightarrow> 'g machine \<Rightarrow> error + 'g machine" where
  "schedule_all [] m = Inr m"
| "schedule_all (f # fs) m =
     (case schedule f m of Inl e \<Rightarrow> Inl e | Inr m' \<Rightarrow> schedule_all fs m')"

text \<open>
  The calls \<^verbatim>\<open>schedule(f1); schedule(f2); ...\<close> of a test, one after the other.
\<close>

definition ITERS :: nat where
  "ITERS = 10"

primrec for_loop :: "nat \<Rightarrow> ('g Fiber \<Rightarrow> 'g Fiber) \<Rightarrow> 'g Fiber \<Rightarrow> 'g Fiber" where
  "for_loop 0 body k = k"
| "for_loop (Suc n) body k = body (for_loop n body k)"

text \<open>
  \<^verbatim>\<open>for (int i = 0; i != n; ++i) { body }\<close> followed by \<open>k\<close>. The counter lives on
  the fiber's own stack, which a switch leaves alone.
\<close>

definition increment :: "int \<Rightarrow> int" where
  "increment x = (if x = 2147483647 then - 2147483648 else x + 1)"

text \<open>
  \<^verbatim>\<open>++x\<close> on the 32-bit \<^verbatim>\<open>int x\<close> of the tests, whose values are the integers from
  -2147483648 to 2147483647. At 2147483647 the standard leaves the result undefined; the
  compiled code wraps around, and so does the model.
\<close>

definition test_recursive_fibers :: "int Fiber list" where
  "test_recursive_fibers =
     [CallSchedule (Update increment Return) Return,
      CallSchedule (CallSchedule (Update increment Return) Return) Return,
      CallSchedule (CallSchedule (CallSchedule (Update increment Return) Return) Return) Return]"

definition test_yield_one_fiber :: "int Fiber" where
  "test_yield_one_fiber = for_loop ITERS (\<lambda>k. Update increment (CallYield k)) Return"

record yield_many_vars =
  x :: int
  cur_fiber :: int

definition create_fiber :: "int \<Rightarrow> yield_many_vars Fiber" where
  "create_fiber fiber_id =
     for_loop ITERS
       (\<lambda>k. Assert (\<lambda>v. cur_fiber v \<noteq> fiber_id)
              (Update (\<lambda>v. v\<lparr>cur_fiber := fiber_id\<rparr>)
                (Update (\<lambda>v. v\<lparr>x := increment (x v)\<rparr>)
                  (CallYield k))))
       Return"

definition test_yield_many_fibers :: "yield_many_vars Fiber list" where
  "test_yield_many_fibers = [create_fiber 1, create_fiber 2, create_fiber 3]"

definition installed :: "'g \<Rightarrow> 'g machine" where
  "installed g = (initial g)\<lparr>global_scheduler := Some []\<rparr>"

text \<open>
  The state in which \<^verbatim>\<open>main\<close> calls its first test, after
  \<^verbatim>\<open>init_global_scheduler()\<close>, with \<open>g\<close> for the test's local variables.
\<close>

subsection \<open>Ownership of stack blocks\<close>

primrec fiber_stacks :: "'g Context list \<Rightarrow> addr list" where
  "fiber_stacks [] = []"
| "fiber_stacks (c # q) =
     (case esp c of InBlock a \<Rightarrow> a # fiber_stacks q | _ \<Rightarrow> fiber_stacks q)"

text \<open>
  The blocks that the contexts of a queue run on, in queue order.
\<close>

definition pending :: "'g StackBlock list \<Rightarrow> 'g Context \<Rightarrow> 'g Fiber option" where
  "pending h c =
     (case esp c of
        InBlock a \<Rightarrow>
          if a < length h then
            (case top (h ! a) of
               None \<Rightarrow> None
             | Some fk \<Rightarrow>
                 if stack fk = Some a then
                   (case eip c of RunFiber \<Rightarrow> fiber fk | Resume k \<Rightarrow> Some k | _ \<Rightarrow> None)
                 else None)
          else None
      | _ \<Rightarrow> None)"

text \<open>
  What a queued context has left to run, read from the memory \<open>h\<close>: the whole body,
  found in the \<^verbatim>\<open>FiberKeeper\<close> at the top of its stack, for a fiber that has not
  started, and the rest of the body for one that yielded. The result is \<open>None\<close> unless
  the context is a fiber's, on a block of \<open>h\<close> whose \<^verbatim>\<open>FiberKeeper\<close> holds that very
  block.
\<close>

definition owned :: "addr list \<Rightarrow> 'g machine \<Rightarrow> bool" where
  "owned held m \<longleftrightarrow>
     distinct (held @ stacks m @ fiber_stacks (queue m)) \<and>
     set (held @ stacks m @ fiber_stacks (queue m)) = {..<length (heap m)} \<and>
     (\<forall>c \<in> set (queue m). pending (heap m) c \<noteq> None)"

text \<open>
  Single ownership. Every block of the heap is in exactly one of three places, and there
  once: the free list of the pool, the \<^verbatim>\<open>FiberKeeper\<close> of a queued fiber, or \<open>held\<close>,
  the stack of the fiber that is running (\<open>held\<close> is empty while the scheduler or its
  caller runs).
\<close>

definition pool_blocks :: "'g machine \<Rightarrow> bool" where
  "pool_blocks m \<longleftrightarrow>
     (\<forall>a \<in> set (stacks m). a < length (heap m)) \<and>
     (\<forall>b \<in> set (heap m). bytes b = STACK_SIZE)"

text \<open>
  The free list holds addresses of blocks that \<^verbatim>\<open>calloc\<close> returned, and every such
  block has \<^verbatim>\<open>STACK_SIZE\<close> bytes.
\<close>

definition ready :: "'g machine \<Rightarrow> bool" where
  "ready m \<longleftrightarrow> global_scheduler m \<noteq> None \<and> owned [] m"

definition running :: "addr \<Rightarrow> 'g machine \<Rightarrow> bool" where
  "running a m \<longleftrightarrow>
     global_scheduler m \<noteq> None \<and> in_run_loop (main_loop m) \<and> owned [a] m \<and>
     (\<exists>fk. top (heap m ! a) = Some fk \<and> stack fk = Some a)"

text \<open>
  \<open>ready\<close> describes the states between two activations, \<open>running a\<close> those in which a
  fiber runs on block \<open>a\<close>: \<^verbatim>\<open>main_loop\<close> then holds the scheduler's context, and the
  \<^verbatim>\<open>FiberKeeper\<close> at the top of \<open>a\<close> holds \<open>a\<close>.
\<close>

subsection \<open>Measures\<close>

fun steps :: "'g Fiber \<Rightarrow> nat" where
  "steps Return = 0"
| "steps (Update f k) = Suc (steps k)"
| "steps (Assert p k) = Suc (steps k)"
| "steps (CallSchedule w k) = Suc (steps w + steps k)"
| "steps (CallYield k) = Suc (steps k)"

definition cost :: "'g StackBlock list \<Rightarrow> 'g Context \<Rightarrow> nat" where
  "cost h c = (case pending h c of None \<Rightarrow> 0 | Some k \<Rightarrow> Suc (steps k))"

definition work :: "'g machine \<Rightarrow> nat" where
  "work m = sum_list (map (cost (heap m)) (queue m))"

text \<open>
  \<open>work\<close> bounds the number of activations still to come: every queued context costs
  one activation and one for each statement it has left, counting the statements of the
  bodies it will schedule.
\<close>

fun updates :: "'g Fiber \<Rightarrow> nat" where
  "updates Return = 0"
| "updates (Update f k) = Suc (updates k)"
| "updates (Assert p k) = updates k"
| "updates (CallSchedule w k) = updates w + updates k"
| "updates (CallYield k) = updates k"

fun counting :: "int Fiber \<Rightarrow> bool" where
  "counting Return = True"
| "counting (Update f k) = ((\<forall>v. f v = increment v) \<and> counting k)"
| "counting (Assert p k) = False"
| "counting (CallSchedule w k) = (counting w \<and> counting k)"
| "counting (CallYield k) = counting k"

definition due :: "'g StackBlock list \<Rightarrow> 'g Context \<Rightarrow> nat" where
  "due h c = (case pending h c of None \<Rightarrow> 0 | Some k \<Rightarrow> updates k)"

definition owed :: "'g machine \<Rightarrow> nat" where
  "owed m = sum_list (map (due (heap m)) (queue m))"

text \<open>
  \<open>updates k\<close> counts the update statements of \<open>k\<close> and of every body it schedules,
  directly or not. A \<open>counting\<close> body shares one \<^verbatim>\<open>int\<close> counter, every update of it is
  \<^verbatim>\<open>++x\<close>, and it asserts nothing. \<open>owed m\<close> is the number of updates that the queued
  fibers of \<open>m\<close> have left.
\<close>

definition counters :: "int machine \<Rightarrow> bool" where
  "counters m \<longleftrightarrow>
     (\<forall>c \<in> set (queue m). case pending (heap m) c of None \<Rightarrow> True | Some k \<Rightarrow> counting k)"

subsection \<open>Activations\<close>

partial_function (option) activations ::
  "'g Context list \<Rightarrow> 'g machine \<Rightarrow> ('g Context list \<times> (error + 'g machine)) option" where
  "activations t m =
     (if queue m = [] then Some (t, Inr m)
      else case run_one m of
             Inl e \<Rightarrow> Some (t @ [hd (queue m)], Inl e)
           | Inr m' \<Rightarrow> activations (t @ [hd (queue m)]) m')"

text \<open>
  The loop of \<^verbatim>\<open>run\<close> again, with a log \<open>t\<close> of the contexts it switched into.
\<close>

primrec alternating :: "stack_pointer list \<Rightarrow> bool" where
  "alternating [] = True"
| "alternating (p # ps) = ((case ps of [] \<Rightarrow> True | p' # _ \<Rightarrow> p \<noteq> p') \<and> alternating ps)"

section \<open>Auxiliary facts\<close>

subsection \<open>Queued contexts and memory\<close>

lemma fiber_stacks_append: "fiber_stacks (q @ q') = fiber_stacks q @ fiber_stacks q'"
  by (induction q) (auto split: stack_pointer.splits)

lemma pending_mem:
  "c \<in> set q \<Longrightarrow> pending h c \<noteq> None \<Longrightarrow> \<exists>a. esp c = InBlock a \<and> a < length h \<and> a \<in> set (fiber_stacks q)"
  by (induction q) (auto simp: pending_def split: stack_pointer.splits if_splits)

lemma pending_poke:
  "esp c \<noteq> InBlock a \<Longrightarrow> pending (h[a := b]) c = pending h c"
  by (auto simp: pending_def split: stack_pointer.splits)

lemma pending_grow:
  "pending h c \<noteq> None \<Longrightarrow> pending (h @ [b]) c = pending h c"
  by (auto simp: pending_def nth_append split: stack_pointer.splits if_splits)

lemma queue_Some: "global_scheduler m = Some q \<Longrightarrow> queue m = q"
  by (simp add: queue_def)

lemma queue_vars: "queue (m\<lparr>vars := g\<rparr>) = queue m"
  by (simp add: queue_def)

lemma cost_cong:
  "\<forall>c \<in> set q. pending h' c = pending h c \<Longrightarrow>
   sum_list (map (cost h') q) = sum_list (map (cost h) q)"
  by (induction q) (auto simp: cost_def)

lemma due_cong:
  "\<forall>c \<in> set q. pending h' c = pending h c \<Longrightarrow>
   sum_list (map (due h') q) = sum_list (map (due h) q)"
  by (induction q) (auto simp: due_def)

subsection \<open>The effect of schedule\<close>

lemma schedule_reuse:
  assumes "global_scheduler m = Some q" "stacks m \<noteq> []" "last (stacks m) < length (heap m)"
  shows "schedule w m =
     Inr (m\<lparr>stacks := butlast (stacks m),
            heap := (heap m)[last (stacks m) :=
                      (heap m ! last (stacks m))\<lparr>top := Some \<lparr>fiber = Some w, stack = Some (last (stacks m))\<rparr>\<rparr>],
            global_scheduler := Some (q @ [\<lparr>eip = RunFiber, esp = InBlock (last (stacks m))\<rparr>])\<rparr>)"
  using assms
  by (simp add: schedule_def FiberScheduler_schedule_def FiberKeeper_new_def alloc_def poke_def
      FiberKeeper_destroy_def queue_def)

lemma schedule_fresh:
  assumes "global_scheduler m = Some q" "stacks m = []"
  shows "schedule w m =
     Inr (m\<lparr>heap := heap m @ [\<lparr>bytes = STACK_SIZE, top = Some \<lparr>fiber = Some w, stack = Some (length (heap m))\<rparr>\<rparr>],
            global_scheduler := Some (q @ [\<lparr>eip = RunFiber, esp = InBlock (length (heap m))\<rparr>])\<rparr>)"
  using assms
  by (simp add: schedule_def FiberScheduler_schedule_def FiberKeeper_new_def alloc_def calloc_def poke_def
      FiberKeeper_destroy_def queue_def)

lemma schedule_owned:
  assumes g: "global_scheduler m \<noteq> None" and o: "owned held m"
  shows "\<exists>m' a. schedule w m = Inr m' \<and> owned held m' \<and> global_scheduler m' \<noteq> None \<and>
           vars m' = vars m \<and> main_loop m' = main_loop m \<and>
           queue m' = queue m @ [\<lparr>eip = RunFiber, esp = InBlock a\<rparr>] \<and>
           pending (heap m') \<lparr>eip = RunFiber, esp = InBlock a\<rparr> = Some w \<and>
           (\<forall>c \<in> set (queue m). pending (heap m') c = pending (heap m) c) \<and>
           (\<forall>b \<in> set held. heap m' ! b = heap m ! b) \<and>
           stacks m' = butlast (stacks m) \<and>
           a = (if stacks m = [] then length (heap m) else last (stacks m)) \<and>
           length (heap m') = (if stacks m = [] then Suc (length (heap m)) else length (heap m)) \<and>
           top (heap m' ! a) = Some \<lparr>fiber = Some w, stack = Some a\<rparr>"
proof -
  from g obtain q where q: "global_scheduler m = Some q" by auto
  then have qm: "queue m = q" by (simp add: queue_def)
  from o have d: "distinct (held @ stacks m @ fiber_stacks q)"
    and s: "set (held @ stacks m @ fiber_stacks q) = {..<length (heap m)}"
    and p: "\<forall>c \<in> set q. pending (heap m) c \<noteq> None"
    by (simp_all add: owned_def qm)
  show ?thesis
  proof (cases "stacks m = []")
    case True
    let ?a = "length (heap m)"
    let ?h = "heap m @ [\<lparr>bytes = STACK_SIZE, top = Some \<lparr>fiber = Some w, stack = Some ?a\<rparr>\<rparr>]"
    let ?c = "\<lparr>eip = RunFiber, esp = InBlock ?a\<rparr>"
    let ?m = "m\<lparr>heap := ?h, global_scheduler := Some (q @ [?c])\<rparr>"
    have r: "schedule w m = Inr ?m" using q True by (rule schedule_fresh)
    have keep: "\<forall>c \<in> set q. pending ?h c = pending (heap m) c"
      using p by (simp add: pending_grow)
    have new: "pending ?h ?c = Some w" by (simp add: pending_def)
    have heldlt: "\<forall>b \<in> set held. b < length (heap m)" using s by auto
    have d': "distinct (held @ fiber_stacks q @ [?a])"
      using d s True by auto
    have s': "set (held @ fiber_stacks q @ [?a]) = {..<Suc (length (heap m))}"
      using s True by (auto simp: lessThan_Suc)
    have own: "owned held ?m"
      unfolding owned_def using d' s' keep p new True
      by (simp add: queue_def fiber_stacks_append)
    have hk: "\<forall>b \<in> set held. ?h ! b = heap m ! b"
      using heldlt by (simp add: nth_append)
    show ?thesis
      apply (rule exI [of _ ?m], rule exI [of _ ?a])
      using r own keep new hk True
      by (simp add: queue_def q)
  next
    case False
    let ?a = "last (stacks m)"
    have mem: "?a \<in> set (stacks m)" using False by simp
    have lt: "?a < length (heap m)" using s mem by auto
    let ?h = "(heap m)[?a := (heap m ! ?a)\<lparr>top := Some \<lparr>fiber = Some w, stack = Some ?a\<rparr>\<rparr>]"
    let ?c = "\<lparr>eip = RunFiber, esp = InBlock ?a\<rparr>"
    let ?m = "m\<lparr>stacks := butlast (stacks m), heap := ?h, global_scheduler := Some (q @ [?c])\<rparr>"
    have r: "schedule w m = Inr ?m" using q False lt by (rule schedule_reuse)
    have split: "stacks m = butlast (stacks m) @ [?a]" using False by simp
    have notq: "?a \<notin> set (fiber_stacks q)" using d mem by auto
    have notheld: "?a \<notin> set held" using d mem by auto
    have keep: "\<forall>c \<in> set q. pending ?h c = pending (heap m) c"
    proof
      fix c assume c: "c \<in> set q"
      with p have "pending (heap m) c \<noteq> None" by simp
      with c obtain b where "esp c = InBlock b" "b \<in> set (fiber_stacks q)"
        using pending_mem by blast
      with notq have "esp c \<noteq> InBlock ?a" by auto
      then show "pending ?h c = pending (heap m) c" by (rule pending_poke)
    qed
    have new: "pending ?h ?c = Some w" using lt by (simp add: pending_def)
    have d': "distinct (held @ butlast (stacks m) @ fiber_stacks q @ [?a])"
      using d by (subst (asm) split) auto
    have s': "set (held @ butlast (stacks m) @ fiber_stacks q @ [?a]) = {..<length (heap m)}"
      using s by (subst (asm) split) auto
    have own: "owned held ?m"
      unfolding owned_def using d' s' keep p new
      by (simp add: queue_def fiber_stacks_append)
    have hk: "\<forall>b \<in> set held. ?h ! b = heap m ! b"
    proof
      fix b assume "b \<in> set held"
      with notheld have "?a \<noteq> b" by auto
      then show "?h ! b = heap m ! b" by (rule nth_list_update_neq)
    qed
    show ?thesis
      apply (rule exI [of _ ?m], rule exI [of _ ?a])
      using r own keep new hk False lt
      by (simp add: queue_def q)
  qed
qed

lemma schedule_Inr:
  assumes "schedule w m = Inr m'"
  shows "\<exists>a. a = (if stacks m = [] then length (heap m) else last (stacks m)) \<and>
           vars m' = vars m \<and> main_loop m' = main_loop m \<and>
           stacks m' = butlast (stacks m) \<and>
           global_scheduler m \<noteq> None \<and>
           global_scheduler m' = Some (queue m @ [\<lparr>eip = RunFiber, esp = InBlock a\<rparr>]) \<and>
           a < length (heap m') \<and>
           top (heap m' ! a) = Some \<lparr>fiber = Some w, stack = Some a\<rparr>"
proof (cases "stacks m = []")
  case True
  with assms show ?thesis
    by (auto simp: schedule_def FiberScheduler_schedule_def FiberKeeper_new_def alloc_def
        calloc_def poke_def FiberKeeper_destroy_def queue_def split: if_splits)
next
  case False
  with assms show ?thesis
    by (auto simp: schedule_def FiberScheduler_schedule_def FiberKeeper_new_def alloc_def
        poke_def FiberKeeper_destroy_def queue_def split: if_splits)
qed

lemma schedule_all_owned:
  "global_scheduler m \<noteq> None \<Longrightarrow> owned held m \<Longrightarrow>
     \<exists>m' new. schedule_all ws m = Inr m' \<and> owned held m' \<and> global_scheduler m' \<noteq> None \<and>
        vars m' = vars m \<and> main_loop m' = main_loop m \<and>
        queue m' = queue m @ new \<and>
        map eip new = map (\<lambda>w. RunFiber) ws \<and>
        map (pending (heap m')) new = map Some ws \<and>
        (\<forall>c \<in> set (queue m). pending (heap m') c = pending (heap m) c)"
proof (induction ws arbitrary: m)
  case Nil
  then show ?case by simp
next
  case (Cons w ws)
  from schedule_owned [OF Cons.prems, of w] obtain m1 a where
    s: "schedule w m = Inr m1" "owned held m1" "global_scheduler m1 \<noteq> None" "vars m1 = vars m"
       "main_loop m1 = main_loop m"
       "queue m1 = queue m @ [\<lparr>eip = RunFiber, esp = InBlock a\<rparr>]"
       "pending (heap m1) \<lparr>eip = RunFiber, esp = InBlock a\<rparr> = Some w"
       "\<forall>c \<in> set (queue m). pending (heap m1) c = pending (heap m) c"
    by blast
  from Cons.IH [OF s(3,2)] obtain m' new where
    i: "schedule_all ws m1 = Inr m'" "owned held m'" "global_scheduler m' \<noteq> None"
       "vars m' = vars m1" "main_loop m' = main_loop m1" "queue m' = queue m1 @ new"
       "map eip new = map (\<lambda>w. RunFiber) ws"
       "map (pending (heap m')) new = map Some ws"
       "\<forall>c \<in> set (queue m1). pending (heap m') c = pending (heap m1) c"
    by blast
  let ?c = "\<lparr>eip = RunFiber, esp = InBlock a\<rparr>"
  have "schedule_all (w # ws) m = Inr m'" using s(1) i(1) by simp
  moreover have "queue m' = queue m @ (?c # new)" using s(6) i(6) by simp
  moreover have "map eip (?c # new) = map (\<lambda>w. RunFiber) (w # ws)" using i(7) by simp
  moreover have "map (pending (heap m')) (?c # new) = map Some (w # ws)"
    using i(8,9) s(6,7) by simp
  moreover have "\<forall>c \<in> set (queue m). pending (heap m') c = pending (heap m) c"
    using i(9) s(6,8) by simp
  ultimately show ?case using i(2,3,4,5) s(4,5)
    by (intro exI [of _ m'] exI [of _ "?c # new"]) simp
qed

lemma schedule_all_Inr:
  "schedule_all ws m = Inr m' \<Longrightarrow>
     vars m' = vars m \<and> main_loop m' = main_loop m \<and>
     (\<exists>new. queue m' = queue m @ new \<and> map eip new = map (\<lambda>w. RunFiber) ws)"
proof (induction ws arbitrary: m)
  case Nil
  then show ?case by simp
next
  case (Cons w ws)
  from Cons.prems obtain m1 where s: "schedule w m = Inr m1" and r: "schedule_all ws m1 = Inr m'"
    by (auto split: sum.splits)
  from schedule_Inr [OF s] obtain a where
    a: "vars m1 = vars m" "main_loop m1 = main_loop m"
       "global_scheduler m1 = Some (queue m @ [\<lparr>eip = RunFiber, esp = InBlock a\<rparr>])"
    by blast
  from Cons.IH [OF r] obtain new where
    n: "vars m' = vars m1" "main_loop m' = main_loop m1" "queue m' = queue m1 @ new"
       "map eip new = map (\<lambda>w. RunFiber) ws"
    by blast
  let ?c = "\<lparr>eip = RunFiber, esp = InBlock a\<rparr>"
  have "queue m' = queue m @ (?c # new)" using n(3) queue_Some [OF a(3)] by simp
  moreover have "map eip (?c # new) = map (\<lambda>w. RunFiber) (w # ws)" using n(4) by simp
  ultimately have "\<exists>new. queue m' = queue m @ new \<and>
      map eip new = map (\<lambda>w. RunFiber) (w # ws)"
    by (intro exI [of _ "?c # new"] conjI)
  then show ?case using a(1,2) n(1,2) by simp
qed

subsection \<open>The statements of a fiber\<close>

lemma running_block: "running a m \<Longrightarrow> a < length (heap m)"
  by (auto simp: running_def owned_def)

lemma leave_running:
  assumes "running a m"
  shows "leave a m =
    Inr (m\<lparr>stacks := stacks m @ [a], main_loop := \<lparr>eip = Unreachable, esp = InBlock a\<rparr>\<rparr>)"
proof -
  from assms obtain fk where fk: "top (heap m ! a) = Some fk" "stack fk = Some a"
    and loop: "in_run_loop (main_loop m)"
    by (auto simp: running_def)
  have "peek a m = Inr fk" using running_block [OF assms] fk by (simp add: peek_def)
  then show ?thesis using fk loop
    by (simp add: leave_def FiberKeeper_destroy_def free_def switch_context_def)
qed

lemma yield_running:
  assumes "running a m"
  shows "yield here m = Inr (m\<lparr>global_scheduler := Some (queue m @ [here])\<rparr>)"
  using assms
  by (auto simp: running_def yield_def FiberScheduler_yield_def switch_context_def)

lemma ready_after_leave:
  assumes "running a m"
  shows "ready (m\<lparr>stacks := stacks m @ [a], main_loop := c\<rparr>)"
  using assms by (auto simp: running_def ready_def owned_def queue_def)

lemma ready_after_yield:
  assumes "running a m"
  shows "ready (m\<lparr>global_scheduler := Some (queue m @ [\<lparr>eip = Resume k, esp = InBlock a\<rparr>])\<rparr>)"
proof -
  from assms obtain fk where fk: "top (heap m ! a) = Some fk" "stack fk = Some a"
    by (auto simp: running_def)
  have "pending (heap m) \<lparr>eip = Resume k, esp = InBlock a\<rparr> = Some k"
    using running_block [OF assms] fk by (simp add: pending_def)
  then show ?thesis using assms
    by (auto simp: running_def ready_def owned_def queue_def fiber_stacks_append)
qed

lemma running_vars: "running a (m\<lparr>vars := g\<rparr>) = running a m"
  by (simp add: running_def owned_def queue_def)

lemma work_vars: "work (m\<lparr>vars := g\<rparr>) = work m"
  by (simp add: work_def queue_def)

lemma schedule_running:
  assumes "running a m"
  shows "\<exists>m' b. schedule w m = Inr m' \<and> running a m' \<and> vars m' = vars m \<and>
           queue m' = queue m @ [\<lparr>eip = RunFiber, esp = InBlock b\<rparr>] \<and>
           pending (heap m') \<lparr>eip = RunFiber, esp = InBlock b\<rparr> = Some w \<and>
           (\<forall>c \<in> set (queue m). pending (heap m') c = pending (heap m) c) \<and>
           stacks m' = butlast (stacks m)"
proof -
  from assms have g: "global_scheduler m \<noteq> None" and o: "owned [a] m"
    by (simp_all add: running_def)
  from schedule_owned [OF g o, of w] obtain m' b where
    r: "schedule w m = Inr m'" "owned [a] m'" "global_scheduler m' \<noteq> None"
       "vars m' = vars m" "main_loop m' = main_loop m"
       "queue m' = queue m @ [\<lparr>eip = RunFiber, esp = InBlock b\<rparr>]"
       "pending (heap m') \<lparr>eip = RunFiber, esp = InBlock b\<rparr> = Some w"
       "\<forall>c \<in> set (queue m). pending (heap m') c = pending (heap m) c"
       "\<forall>b \<in> set [a]. heap m' ! b = heap m ! b"
       "stacks m' = butlast (stacks m)"
    by blast
  have "running a m'" using assms r by (simp add: running_def)
  with r show ?thesis by blast
qed

lemma exec_sound:
  "running a m \<Longrightarrow> exec a k m = Inr m' \<Longrightarrow>
     ready m' \<and> work m' \<le> work m + steps k \<and>
     (\<exists>new. queue m' = queue m @ new) \<and>
     (\<forall>c \<in> set (queue m). pending (heap m') c = pending (heap m) c)"
proof (induction k arbitrary: m)
  case Return
  then show ?case
    by (auto simp: leave_running ready_after_leave work_def queue_def)
next
  case (Update f k)
  from Update.IH [of "m\<lparr>vars := f (vars m)\<rparr>"] Update.prems
  show ?case by (simp add: running_vars work_vars queue_vars)
next
  case (Assert p k)
  from Assert.prems have e: "exec a k m = Inr m'" by (simp split: if_splits)
  from Assert.IH [OF Assert.prems(1) e] show ?case by auto
next
  case (CallSchedule w k)
  from schedule_running [OF CallSchedule.prems(1), of w] obtain m1 b where
    s: "schedule w m = Inr m1" "running a m1"
       "queue m1 = queue m @ [\<lparr>eip = RunFiber, esp = InBlock b\<rparr>]"
       "pending (heap m1) \<lparr>eip = RunFiber, esp = InBlock b\<rparr> = Some w"
       "\<forall>c \<in> set (queue m). pending (heap m1) c = pending (heap m) c"
    by blast
  from CallSchedule.prems(2) s(1) have e: "exec a k m1 = Inr m'" by simp
  from CallSchedule.IH(2) [OF s(2) e] obtain new where
    i: "ready m'" "work m' \<le> work m1 + steps k" "queue m' = queue m1 @ new"
       "\<forall>c \<in> set (queue m1). pending (heap m') c = pending (heap m1) c"
    by blast
  have w1: "work m1 = work m + Suc (steps w)"
    using s(3,4) cost_cong [OF s(5)] by (simp add: work_def cost_def)
  show ?case using i s(3,5) w1 by auto
next
  case (CallYield k)
  let ?c = "\<lparr>eip = Resume k, esp = InBlock a\<rparr>"
  from CallYield.prems obtain fk where fk: "top (heap m ! a) = Some fk" "stack fk = Some a"
    by (auto simp: running_def)
  have p: "pending (heap m) ?c = Some k"
    using running_block [OF CallYield.prems(1)] fk by (simp add: pending_def)
  from CallYield.prems have m': "m' = m\<lparr>global_scheduler := Some (queue m @ [?c])\<rparr>"
    by (simp add: yield_running)
  show ?case using ready_after_yield [OF CallYield.prems(1), of k] p
    by (simp add: m' work_def queue_def cost_def)
qed

lemma exec_outcome:
  "running a m \<Longrightarrow> exec a k m = Inr m' \<Longrightarrow>
     (stacks m' \<noteq> [] \<and> last (stacks m') = a \<and> main_loop m' = \<lparr>eip = Unreachable, esp = InBlock a\<rparr>) \<or>
     (\<exists>k'. queue m' \<noteq> [] \<and> last (queue m') = \<lparr>eip = Resume k', esp = InBlock a\<rparr>)"
proof (induction k arbitrary: m)
  case Return
  then show ?case by (auto simp: leave_running)
next
  case (Update f k)
  from Update.IH [of "m\<lparr>vars := f (vars m)\<rparr>"] Update.prems
  show ?case by (simp add: running_vars)
next
  case (Assert p k)
  from Assert.prems have e: "exec a k m = Inr m'" by (simp split: if_splits)
  from Assert.IH [OF Assert.prems(1) e] show ?case .
next
  case (CallSchedule w k)
  from schedule_running [OF CallSchedule.prems(1), of w] obtain m1 where
    s: "schedule w m = Inr m1" "running a m1" by blast
  from CallSchedule.prems(2) s(1) have e: "exec a k m1 = Inr m'" by simp
  from CallSchedule.IH(2) [OF s(2) e] show ?case .
next
  case (CallYield k)
  then show ?case by (auto simp: yield_running queue_def)
qed

lemma exec_errors:
  "running a m \<Longrightarrow> exec a k m = Inl e \<Longrightarrow> e = AssertionFailed"
proof (induction k arbitrary: m)
  case Return
  then show ?case by (simp add: leave_running)
next
  case (Update f k)
  from Update.IH [of "m\<lparr>vars := f (vars m)\<rparr>"] Update.prems show ?case
    by (simp add: running_vars)
next
  case (Assert p k)
  then show ?case by (auto split: if_splits)
next
  case (CallSchedule w k)
  from schedule_running [OF CallSchedule.prems(1), of w] obtain m1 where
    s: "schedule w m = Inr m1" "running a m1" by blast
  from CallSchedule.prems(2) s(1) have "exec a k m1 = Inl e" by simp
  from CallSchedule.IH(2) [OF s(2) this] show ?case .
next
  case (CallYield k)
  then show ?case by (simp add: yield_running)
qed

lemma exec_installed:
  "global_scheduler m \<noteq> None \<Longrightarrow> exec a k m = Inr m' \<Longrightarrow> global_scheduler m' \<noteq> None"
proof (induction k arbitrary: m)
  case Return
  then show ?case
    by (auto simp: leave_def FiberKeeper_destroy_def free_def switch_context_def
        split: sum.splits option.splits if_splits)
next
  case (Update f k)
  from Update.IH [of "m\<lparr>vars := f (vars m)\<rparr>"] Update.prems show ?case by simp
next
  case (Assert p k)
  then show ?case by (auto split: if_splits)
next
  case (CallSchedule w k)
  from CallSchedule.prems(2) obtain m1 where s: "schedule w m = Inr m1" and e: "exec a k m1 = Inr m'"
    by (auto split: sum.splits)
  from schedule_Inr [OF s] have "global_scheduler m1 \<noteq> None" by auto
  from CallSchedule.IH(2) [OF this e] show ?case .
next
  case (CallYield k)
  then show ?case
    by (auto simp: yield_def FiberScheduler_yield_def switch_context_def split: if_splits)
qed

subsection \<open>One activation\<close>

lemma run_one_exec:
  assumes r: "ready m" and q: "queue m = c # q"
  shows "\<exists>a k. esp c = InBlock a \<and> pending (heap m) c = Some k \<and>
           run_one m = exec a k (m\<lparr>global_scheduler := Some q, main_loop := scheduler_context\<rparr>) \<and>
           running a (m\<lparr>global_scheduler := Some q, main_loop := scheduler_context\<rparr>)"
proof -
  let ?m = "m\<lparr>global_scheduler := Some q, main_loop := scheduler_context\<rparr>"
  from r q have o: "owned [] m" and p: "pending (heap m) c \<noteq> None"
    by (auto simp: ready_def owned_def)
  then obtain k where k: "pending (heap m) c = Some k" by auto
  then obtain a fk where a: "esp c = InBlock a" "a < length (heap m)"
    "top (heap m ! a) = Some fk" "stack fk = Some a"
    "(eip c = RunFiber \<and> fiber fk = Some k) \<or> eip c = Resume k"
    by (auto simp: pending_def split: stack_pointer.splits if_splits option.splits code.splits)
  have e: "run_one m = exec a k ?m"
    using q a
    by (auto simp: run_one_def switch_context_def enter_def run_fiber_def peek_def)
  from o have d: "distinct (stacks m @ fiber_stacks (c # q))"
    and s: "set (stacks m @ fiber_stacks (c # q)) = {..<length (heap m)}"
    and p': "\<forall>c' \<in> set q. pending (heap m) c' \<noteq> None"
    by (simp_all add: owned_def q)
  have qm: "queue ?m = q" by (simp add: queue_def)
  have "owned [a] ?m" unfolding owned_def qm using d s p' a(1)
    by auto
  then have "running a ?m" using a
    by (simp add: running_def scheduler_context_def in_run_loop_def)
  with a k e show ?thesis by blast
qed

lemma run_one_sound:
  assumes r: "ready m" and q: "queue m = c # q" and e: "run_one m = Inr m'"
  shows "ready m' \<and> work m' < work m \<and> (\<exists>new. queue m' = q @ new)"
proof -
  let ?m = "m\<lparr>global_scheduler := Some q, main_loop := scheduler_context\<rparr>"
  from run_one_exec [OF r q] obtain a k where
    x: "pending (heap m) c = Some k" "run_one m = exec a k ?m" "running a ?m"
    by blast
  from e x(2) have "exec a k ?m = Inr m'" by simp
  from exec_sound [OF x(3) this] have
    s: "ready m'" "work m' \<le> work ?m + steps k" "\<exists>new. queue m' = queue ?m @ new"
    by blast+
  have "work m = Suc (steps k) + work ?m"
    using q x(1) by (simp add: work_def queue_def cost_def)
  with s show ?thesis by (simp add: queue_def)
qed

lemma run_one_outcome:
  assumes r: "ready m" and q: "queue m = c # q" and e: "run_one m = Inr m'"
  shows "\<exists>a. esp c = InBlock a \<and>
           ((stacks m' \<noteq> [] \<and> last (stacks m') = a \<and> a \<notin> set (fiber_stacks (queue m'))) \<or>
            (\<exists>k'. queue m' \<noteq> [] \<and> last (queue m') = \<lparr>eip = Resume k', esp = InBlock a\<rparr> \<and>
                  a \<notin> set (stacks m')))"
proof -
  let ?m = "m\<lparr>global_scheduler := Some q, main_loop := scheduler_context\<rparr>"
  from run_one_exec [OF r q] obtain a k where
    x: "esp c = InBlock a" "run_one m = exec a k ?m" "running a ?m"
    by blast
  from e x(2) have ex: "exec a k ?m = Inr m'" by simp
  from run_one_sound [OF r q e] have "ready m'" by simp
  then have d: "distinct (stacks m' @ fiber_stacks (queue m'))"
    by (simp add: ready_def owned_def)
  from exec_outcome [OF x(3) ex] show ?thesis
  proof
    assume c: "stacks m' \<noteq> [] \<and> last (stacks m') = a \<and>
      main_loop m' = \<lparr>eip = Unreachable, esp = InBlock a\<rparr>"
    then have "a \<in> set (stacks m')" using last_in_set [of "stacks m'"] by auto
    with d have "a \<notin> set (fiber_stacks (queue m'))" by auto
    with c x(1) show ?thesis by blast
  next
    assume "\<exists>k'. queue m' \<noteq> [] \<and> last (queue m') = \<lparr>eip = Resume k', esp = InBlock a\<rparr>"
    then obtain k' where y: "queue m' \<noteq> []" "last (queue m') = \<lparr>eip = Resume k', esp = InBlock a\<rparr>"
      by blast
    then have "queue m' = butlast (queue m') @ [\<lparr>eip = Resume k', esp = InBlock a\<rparr>]"
      using append_butlast_last_id [of "queue m'"] by simp
    then have "fiber_stacks (queue m') = fiber_stacks (butlast (queue m')) @ [a]"
      using fiber_stacks_append [of "butlast (queue m')" "[\<lparr>eip = Resume k', esp = InBlock a\<rparr>]"]
      by simp
    then have "a \<in> set (fiber_stacks (queue m'))" by simp
    with d have "a \<notin> set (stacks m')" by auto
    with y x(1) show ?thesis by blast
  qed
qed

lemma run_one_installed:
  assumes "run_one m = Inr m'"
  shows "global_scheduler m' \<noteq> None"
proof -
  from assms obtain c q where q: "queue m = c # q"
    by (cases "queue m") (auto simp: run_one_def)
  let ?m = "m\<lparr>global_scheduler := Some q, main_loop := scheduler_context\<rparr>"
  from assms q have "enter c ?m = Inr m'"
    by (simp add: run_one_def switch_context_def)
  then obtain a k where "exec a k ?m = Inr m'"
    by (auto simp: enter_def run_fiber_def split: stack_pointer.splits code.splits sum.splits
        option.splits)
  moreover have "global_scheduler ?m \<noteq> None" by simp
  ultimately show ?thesis using exec_installed by blast
qed

lemma next_in_line:
  assumes r: "ready m" and q: "queue m = c # c' # q"
  shows "esp c' \<noteq> esp c"
proof -
  from r q have d: "distinct (fiber_stacks (c # c' # q))"
    and p: "pending (heap m) c \<noteq> None" "pending (heap m) c' \<noteq> None"
    by (simp_all add: ready_def owned_def)
  from p obtain a a' where "esp c = InBlock a" "esp c' = InBlock a'"
    by (auto simp: pending_def split: stack_pointer.splits)
  with d show ?thesis by auto
qed

lemma run_one_rotates:
  assumes r: "ready m" and q: "queue m = c # q" and e: "run_one m = Inr m'"
  shows "\<exists>new. queue m' = q @ new \<and>
           ((\<exists>b. esp c = InBlock b \<and> stacks m' \<noteq> [] \<and> last (stacks m') = b) \<or>
            (\<exists>k'. new \<noteq> [] \<and> last new = \<lparr>eip = Resume k', esp = esp c\<rparr>))"
proof -
  from run_one_sound [OF r q e] obtain new where n: "queue m' = q @ new" by blast
  from run_one_outcome [OF r q e] obtain a where a: "esp c = InBlock a"
    and o: "(stacks m' \<noteq> [] \<and> last (stacks m') = a \<and> a \<notin> set (fiber_stacks (queue m'))) \<or>
            (\<exists>k'. queue m' \<noteq> [] \<and> last (queue m') = \<lparr>eip = Resume k', esp = InBlock a\<rparr> \<and>
                  a \<notin> set (stacks m'))"
    by blast
  from o show ?thesis
  proof
    assume "stacks m' \<noteq> [] \<and> last (stacks m') = a \<and> a \<notin> set (fiber_stacks (queue m'))"
    with a n show ?thesis by blast
  next
    assume "\<exists>k'. queue m' \<noteq> [] \<and> last (queue m') = \<lparr>eip = Resume k', esp = InBlock a\<rparr> \<and>
                  a \<notin> set (stacks m')"
    then obtain k' where y: "queue m' \<noteq> []" "last (queue m') = \<lparr>eip = Resume k', esp = InBlock a\<rparr>"
      by blast
    from r q a have na: "a \<notin> set (fiber_stacks q)" by (simp add: ready_def owned_def)
    have "new \<noteq> []"
    proof
      assume "new = []"
      with n y have "q \<noteq> []" "last q = \<lparr>eip = Resume k', esp = InBlock a\<rparr>" by simp_all
      then have "q = butlast q @ [\<lparr>eip = Resume k', esp = InBlock a\<rparr>]"
        using append_butlast_last_id [of q] by simp
      then have "fiber_stacks q = fiber_stacks (butlast q) @ [a]"
        using fiber_stacks_append [of "butlast q" "[\<lparr>eip = Resume k', esp = InBlock a\<rparr>]"]
        by simp
      with na show False by simp
    qed
    with n y a show ?thesis by auto
  qed
qed

subsection \<open>The drain\<close>

lemma run_empty: "queue m = [] \<Longrightarrow> FiberScheduler_run m = Some (Inr m)"
  by (subst FiberScheduler_run.simps) simp

lemma run_step:
  "queue m \<noteq> [] \<Longrightarrow> run_one m = Inr m' \<Longrightarrow> FiberScheduler_run m = FiberScheduler_run m'"
  by (subst FiberScheduler_run.simps) simp

lemma run_stop:
  "queue m \<noteq> [] \<Longrightarrow> run_one m = Inl e \<Longrightarrow> FiberScheduler_run m = Some (Inl e)"
  by (subst FiberScheduler_run.simps) simp

lemma run_terminates:
  "ready m \<Longrightarrow>
     \<exists>r. FiberScheduler_run m = Some r \<and>
         (case r of Inl e \<Rightarrow> e = AssertionFailed | Inr m' \<Rightarrow> ready m' \<and> queue m' = [])"
proof (induction "work m" arbitrary: m rule: less_induct)
  case less
  show ?case
  proof (cases "queue m")
    case Nil
    then show ?thesis using less.prems by (simp add: run_empty)
  next
    case (Cons c q)
    let ?m = "m\<lparr>global_scheduler := Some q, main_loop := scheduler_context\<rparr>"
    from run_one_exec [OF less.prems Cons] obtain a k where
      x: "run_one m = exec a k ?m" "running a ?m" by blast
    show ?thesis
    proof (cases "run_one m")
      case (Inl e)
      with x exec_errors have "e = AssertionFailed" by metis
      with Inl Cons show ?thesis by (simp add: run_stop)
    next
      case (Inr m1)
      from run_one_sound [OF less.prems Cons Inr] have s: "ready m1" "work m1 < work m"
        by simp_all
      from less.hyps [OF s(2) s(1)] obtain r where
        "FiberScheduler_run m1 = Some r"
        "case r of Inl e \<Rightarrow> e = AssertionFailed | Inr m' \<Rightarrow> ready m' \<and> queue m' = []"
        by blast
      moreover have "FiberScheduler_run m = FiberScheduler_run m1"
        using Cons Inr by (simp add: run_step)
      ultimately show ?thesis by simp
    qed
  qed
qed

lemma run_Inr_cases:
  "FiberScheduler_run m = Some r \<Longrightarrow>
     (case r of
        Inl e \<Rightarrow> True
      | Inr m' \<Rightarrow>
          queue m' = [] \<and> (global_scheduler m \<noteq> None \<longrightarrow> global_scheduler m' \<noteq> None))"
proof (induction rule: FiberScheduler_run.raw_induct [rotated 1, consumes 1])
  case (1 run m r)
  show ?case
  proof (cases "queue m = []")
    case True
    with 1(2) show ?thesis by auto
  next
    case False
    show ?thesis
    proof (cases "run_one m")
      case (Inl e)
      with 1(2) False show ?thesis by auto
    next
      case (Inr m1)
      with 1(2) False have "run m1 = Some r" by simp
      from 1(1) [OF this] run_one_installed [OF Inr] show ?thesis
        by (auto split: sum.splits)
    qed
  qed
qed

lemma run_Inr:
  assumes "FiberScheduler_run m = Some (Inr m')"
  shows "queue m' = [] \<and> (global_scheduler m \<noteq> None \<longrightarrow> global_scheduler m' \<noteq> None)"
  using run_Inr_cases [OF assms] by simp

lemma run_ready_cases:
  "FiberScheduler_run m = Some r \<Longrightarrow> ready m \<Longrightarrow>
     (case r of Inl e \<Rightarrow> True | Inr m' \<Rightarrow> ready m')"
proof (induction rule: FiberScheduler_run.raw_induct [rotated 1, consumes 1])
  case (1 run m r)
  show ?case
  proof (cases "queue m")
    case Nil
    with 1(2,3) show ?thesis by auto
  next
    case (Cons c q)
    show ?thesis
    proof (cases "run_one m")
      case (Inl e)
      with 1(2) Cons show ?thesis by auto
    next
      case (Inr m1)
      with 1(2) Cons have "run m1 = Some r" by simp
      moreover from run_one_sound [OF 1(3) Cons Inr] have "ready m1" by simp
      ultimately show ?thesis by (rule 1(1))
    qed
  qed
qed

lemma run_ready:
  assumes "ready m" "FiberScheduler_run m = Some (Inr m')"
  shows "ready m'"
  using run_ready_cases [OF assms(2,1)] by simp

subsection \<open>Counting fibers\<close>

lemma counters_vars: "counters (m\<lparr>vars := g\<rparr>) = counters m"
  by (simp add: counters_def queue_def)

lemma owed_vars: "owed (m\<lparr>vars := g\<rparr>) = owed m"
  by (simp add: owed_def queue_def)

lemma counters_append:
  assumes "counters m" "queue m' = queue m @ [c]" "pending (heap m') c = Some k" "counting k"
    "\<forall>c \<in> set (queue m). pending (heap m') c = pending (heap m) c"
  shows "counters m'"
  using assms by (auto simp: counters_def)

lemma owed_append:
  assumes "queue m' = queue m @ [c]" "pending (heap m') c = Some k"
    "\<forall>c \<in> set (queue m). pending (heap m') c = pending (heap m) c"
  shows "owed m' = owed m + updates k"
  using assms(1,2) due_cong [OF assms(3)] by (simp add: owed_def due_def)

lemma exec_counting:
  "running a m \<Longrightarrow> counting k \<Longrightarrow> counters m \<Longrightarrow>
   vars m + int (updates k) + int (owed m) \<le> 2147483647 \<Longrightarrow>
     \<exists>m'. exec a k m = Inr m' \<and> counters m' \<and>
          vars m' + int (owed m') = vars m + int (updates k) + int (owed m)"
proof (induction k arbitrary: m)
  case Return
  then show ?case
    by (simp add: leave_running counters_def owed_def queue_def)
next
  case (Update f k)
  from Update.prems have "f (vars m) = increment (vars m)" and k: "counting k"
    and "vars m \<noteq> 2147483647" by simp_all
  then have f: "f (vars m) = vars m + 1" by (simp add: increment_def)
  from Update.IH [of "m\<lparr>vars := f (vars m)\<rparr>"] Update.prems(1,3,4) k f
  obtain m' where "exec a k (m\<lparr>vars := f (vars m)\<rparr>) = Inr m'" "counters m'"
    "vars m' + int (owed m') = f (vars m) + int (updates k) + int (owed m)"
    by (auto simp: running_vars counters_vars owed_vars)
  then show ?case using f by simp
next
  case (Assert p k)
  then show ?case by simp
next
  case (CallSchedule w k)
  from schedule_running [OF CallSchedule.prems(1), of w] obtain m1 b where
    s: "schedule w m = Inr m1" "running a m1" "vars m1 = vars m"
       "queue m1 = queue m @ [\<lparr>eip = RunFiber, esp = InBlock b\<rparr>]"
       "pending (heap m1) \<lparr>eip = RunFiber, esp = InBlock b\<rparr> = Some w"
       "\<forall>c \<in> set (queue m). pending (heap m1) c = pending (heap m) c"
    by blast
  from CallSchedule.prems(2) have cw: "counting w" and ck: "counting k" by simp_all
  have c1: "counters m1"
    using CallSchedule.prems(3) s(4,5) cw s(6) by (rule counters_append)
  have o1: "owed m1 = owed m + updates w"
    using s(4,5,6) by (rule owed_append)
  have b1: "vars m1 + int (updates k) + int (owed m1) \<le> 2147483647"
    using CallSchedule.prems(4) s(3) o1 by simp
  from CallSchedule.IH(2) [OF s(2) ck c1 b1] obtain m' where
    "exec a k m1 = Inr m'" "counters m'"
    "vars m' + int (owed m') = vars m1 + int (updates k) + int (owed m1)"
    by blast
  then show ?case using s(1,3) o1 by simp
next
  case (CallYield k)
  let ?c = "\<lparr>eip = Resume k, esp = InBlock a\<rparr>"
  let ?m = "m\<lparr>global_scheduler := Some (queue m @ [?c])\<rparr>"
  from CallYield.prems obtain fk where fk: "top (heap m ! a) = Some fk" "stack fk = Some a"
    by (auto simp: running_def)
  have p: "pending (heap ?m) ?c = Some k"
    using running_block [OF CallYield.prems(1)] fk by (simp add: pending_def)
  have q: "queue ?m = queue m @ [?c]" by (simp add: queue_def)
  have keep: "\<forall>c \<in> set (queue m). pending (heap ?m) c = pending (heap m) c" by simp
  from CallYield.prems(2) have ck: "counting k" by simp
  have c1: "counters ?m" using CallYield.prems(3) q p ck keep by (rule counters_append)
  have o1: "owed ?m = owed m + updates k" using q p keep by (rule owed_append)
  show ?case using c1 o1 by (simp add: yield_running [OF CallYield.prems(1)])
qed

lemma run_counting:
  "ready m \<Longrightarrow> counters m \<Longrightarrow> vars m + int (owed m) \<le> 2147483647 \<Longrightarrow>
     \<exists>m'. FiberScheduler_run m = Some (Inr m') \<and> queue m' = [] \<and> ready m' \<and>
          vars m' = vars m + int (owed m)"
proof (induction "work m" arbitrary: m rule: less_induct)
  case less
  show ?case
  proof (cases "queue m")
    case Nil
    then show ?thesis using less.prems by (simp add: run_empty owed_def)
  next
    case (Cons c q)
    let ?m = "m\<lparr>global_scheduler := Some q, main_loop := scheduler_context\<rparr>"
    from run_one_exec [OF less.prems(1) Cons] obtain a k where
      x: "pending (heap m) c = Some k" "run_one m = exec a k ?m" "running a ?m"
      by blast
    have ck: "counting k" using less.prems(2) Cons x(1) by (auto simp: counters_def)
    have qm: "queue ?m = q" by (simp add: queue_def)
    have cm: "counters ?m" using less.prems(2) Cons unfolding counters_def qm by simp
    have om: "owed m = updates k + owed ?m"
      using Cons x(1) unfolding owed_def qm by (simp add: due_def)
    have bm: "vars ?m + int (updates k) + int (owed ?m) \<le> 2147483647"
      using less.prems(3) om by simp
    from exec_counting [OF x(3) ck cm bm] obtain m1 where
      e: "exec a k ?m = Inr m1" "counters m1"
         "vars m1 + int (owed m1) = vars ?m + int (updates k) + int (owed ?m)"
      by blast
    have r1: "run_one m = Inr m1" using x(2) e(1) by simp
    from run_one_sound [OF less.prems(1) Cons r1] have s: "ready m1" "work m1 < work m"
      by simp_all
    have b1: "vars m1 + int (owed m1) \<le> 2147483647" using e(3) bm by simp
    from less.hyps [OF s(2) s(1) e(2) b1] obtain m' where
      "FiberScheduler_run m1 = Some (Inr m')" "queue m' = []" "ready m'"
      "vars m' = vars m1 + int (owed m1)"
      by blast
    moreover have "FiberScheduler_run m = FiberScheduler_run m1"
      using Cons r1 by (simp add: run_step)
    ultimately show ?thesis using e(3) om by simp
  qed
qed

lemma schedule_all_counting:
  "ready m0 \<Longrightarrow> counters m0 \<Longrightarrow> \<forall>f \<in> set fs. counting f \<Longrightarrow>
     \<exists>m. schedule_all fs m0 = Inr m \<and> ready m \<and> counters m \<and> vars m = vars m0 \<and>
         owed m = owed m0 + sum_list (map updates fs)"
proof (induction fs arbitrary: m0)
  case Nil
  then show ?case by simp
next
  case (Cons f fs)
  from Cons.prems(1) have g: "global_scheduler m0 \<noteq> None" and o: "owned [] m0"
    by (simp_all add: ready_def)
  from schedule_owned [OF g o, of f] obtain m1 a where
    s: "schedule f m0 = Inr m1" "owned [] m1" "global_scheduler m1 \<noteq> None" "vars m1 = vars m0"
       "queue m1 = queue m0 @ [\<lparr>eip = RunFiber, esp = InBlock a\<rparr>]"
       "pending (heap m1) \<lparr>eip = RunFiber, esp = InBlock a\<rparr> = Some f"
       "\<forall>c \<in> set (queue m0). pending (heap m1) c = pending (heap m0) c"
    by blast
  from Cons.prems(3) have cf: "counting f" and cfs: "\<forall>f \<in> set fs. counting f" by simp_all
  have r1: "ready m1" using s(2,3) by (simp add: ready_def)
  have c1: "counters m1" using Cons.prems(2) s(5,6) cf s(7) by (rule counters_append)
  have o1: "owed m1 = owed m0 + updates f" using s(5,6,7) by (rule owed_append)
  from Cons.IH [OF r1 c1 cfs] obtain m where
    "schedule_all fs m1 = Inr m" "ready m" "counters m" "vars m = vars m1"
    "owed m = owed m1 + sum_list (map updates fs)"
    by blast
  then show ?case using s(1,4) o1 by simp
qed

lemma yield_loop_counting:
  "counting (for_loop n (\<lambda>k. Update increment (CallYield k)) Return) \<and>
   updates (for_loop n (\<lambda>k. Update increment (CallYield k)) Return) = n"
  by (induction n) simp_all

subsection \<open>The pool\<close>

lemma alloc_pool_blocks:
  assumes "pool_blocks m"
  shows "case alloc m of (a, m') \<Rightarrow>
           a < length (heap m') \<and> bytes (heap m' ! a) = STACK_SIZE \<and> pool_blocks m'"
proof (cases "stacks m = []")
  case True
  with assms show ?thesis
    by (auto simp: alloc_def calloc_def pool_blocks_def nth_append)
next
  case False
  then have "last (stacks m) \<in> set (stacks m)" by simp
  with assms False show ?thesis
    by (auto simp: alloc_def pool_blocks_def dest: in_set_butlastD)
qed

lemma alloc_after_free: "alloc (free b m) = (b, m)"
  by (simp add: alloc_def free_def)

subsection \<open>The yielding test\<close>

lemmas machine_defs = installed_def initial_def schedule_def FiberScheduler_schedule_def
   FiberKeeper_new_def alloc_def calloc_def free_def poke_def peek_def queue_def FiberKeeper_destroy_def
   run_one_def switch_context_def enter_def run_fiber_def
   leave_def scheduler_context_def in_run_loop_def yield_def FiberScheduler_yield_def

lemma test_yield_many_trace:
  "\<exists>m t m'. schedule_all test_yield_many_fibers (installed \<lparr>x = 0, cur_fiber = - 1\<rparr>) = Inr m \<and>
     x (vars m) = 0 \<and>
     FiberScheduler_run m = Some (Inr m') \<and>
     activations [] m = Some (t, Inr m') \<and>
     map esp t = concat (replicate 11 [InBlock 0, InBlock 1, InBlock 2]) \<and>
     alternating (map esp t) \<and>
     x (vars m') = 30 \<and> queue m' = []"
  by (simp add: machine_defs test_yield_many_fibers_def create_fiber_def ITERS_def eval_nat_numeral
      increment_def activations.simps FiberScheduler_run.simps cong: sum.case_cong_weak)

section \<open>The claims\<close>

subsection \<open>C1: nested scheduling is honoured within one drain\<close>

text \<open>
  Claim C1. Start in a state between two activations and schedule any list \<open>fs\<close> of
  fibers; their bodies may schedule further fibers, to any depth, and yield. Every call of
  \<^verbatim>\<open>schedule\<close> returns and the drain ends. Unless an assertion of a body fails, it
  returns, and then the ready queue is empty and every stack block is back in the pool,
  once: every fiber, scheduled from outside or from inside another, has run to its end.

  With counting fibers (bodies made of \<^verbatim>\<open>++x\<close>, calls of \<^verbatim>\<open>schedule\<close> with counting
  bodies, and calls of \<^verbatim>\<open>yield\<close>) the drain returns with the counter grown by exactly
  the number of increments in the bodies that were queued before, in \<open>gs\<close> and in every
  body scheduled from inside a fiber: each body has run once, and no more. The counter is
  the 32-bit \<^verbatim>\<open>int x\<close>: this is stated where the count fits, that is, where the start
  value is an \<^verbatim>\<open>int\<close> and the start value plus the number of all increments does not
  exceed 2147483647.
\<close>

theorem nested_scheduling_drains:
  "(ready m0 \<longrightarrow>
      (\<exists>m r. schedule_all fs m0 = Inr m \<and> run_global_scheduler m = Some r \<and>
         (case r of
            Inl e \<Rightarrow> e = AssertionFailed
          | Inr m' \<Rightarrow> queue m' = [] \<and> distinct (stacks m') \<and>
                     set (stacks m') = {..<length (heap m')}))) \<and>
   (ready n0 \<and> counters n0 \<and> (\<forall>f \<in> set gs. counting f) \<and>
    - 2147483648 \<le> vars n0 \<and>
    vars n0 + int (owed n0) + int (sum_list (map updates gs)) \<le> 2147483647 \<longrightarrow>
      (\<exists>n n'. schedule_all gs n0 = Inr n \<and>
         run_global_scheduler n = Some (Inr n') \<and> queue n' = [] \<and>
         vars n' = vars n0 + int (owed n0) + int (sum_list (map updates gs))))"
proof (intro conjI impI)
  assume r0: "ready m0"
  then have g: "global_scheduler m0 \<noteq> None" and o: "owned [] m0" by (simp_all add: ready_def)
  from schedule_all_owned [OF g o, of fs] obtain m where
    m: "schedule_all fs m0 = Inr m" "owned [] m" "global_scheduler m \<noteq> None" by blast
  then have rm: "ready m" by (simp add: ready_def)
  from run_terminates [OF rm] obtain r where
    r: "FiberScheduler_run m = Some r"
       "case r of Inl e \<Rightarrow> e = AssertionFailed | Inr m' \<Rightarrow> ready m' \<and> queue m' = []"
    by blast
  from m(3) r(1) have "run_global_scheduler m = Some r"
    by (auto simp: run_global_scheduler_def)
  moreover from r(2) have "case r of
            Inl e \<Rightarrow> e = AssertionFailed
          | Inr m' \<Rightarrow> queue m' = [] \<and> distinct (stacks m') \<and>
                     set (stacks m') = {..<length (heap m')}"
    by (auto simp: ready_def owned_def split: sum.splits)
  ultimately show "\<exists>m r. schedule_all fs m0 = Inr m \<and> run_global_scheduler m = Some r \<and>
         (case r of
            Inl e \<Rightarrow> e = AssertionFailed
          | Inr m' \<Rightarrow> queue m' = [] \<and> distinct (stacks m') \<and>
                     set (stacks m') = {..<length (heap m')})"
    using m(1) by blast
next
  assume a: "ready n0 \<and> counters n0 \<and> (\<forall>f \<in> set gs. counting f) \<and>
    - 2147483648 \<le> vars n0 \<and>
    vars n0 + int (owed n0) + int (sum_list (map updates gs)) \<le> 2147483647"
  then have r0: "ready n0" and c0: "counters n0" and f: "\<forall>f \<in> set gs. counting f"
    and b0: "vars n0 + int (owed n0) + int (sum_list (map updates gs)) \<le> 2147483647"
    by simp_all
  from schedule_all_counting [OF r0 c0 f] obtain n where
    n: "schedule_all gs n0 = Inr n" "ready n" "counters n" "vars n = vars n0"
       "owed n = owed n0 + sum_list (map updates gs)"
    by blast
  have bn: "vars n + int (owed n) \<le> 2147483647" using b0 n(4,5) by simp
  from run_counting [OF n(2,3) bn] obtain n' where
    r: "FiberScheduler_run n = Some (Inr n')" "queue n' = []"
       "vars n' = vars n + int (owed n)"
    by blast
  from n(2) have "run_global_scheduler n = FiberScheduler_run n"
    by (auto simp: run_global_scheduler_def ready_def)
  with n r show "\<exists>n n'. schedule_all gs n0 = Inr n \<and>
         run_global_scheduler n = Some (Inr n') \<and> queue n' = [] \<and>
         vars n' = vars n0 + int (owed n0) + int (sum_list (map updates gs))"
    by auto
qed

text \<open>
  The instance \<^verbatim>\<open>test_recursive\<close>: chains of depth 1, 2 and 3 leave the counter at 3.
\<close>

theorem test_recursive_counts_three:
  "\<exists>m m'. schedule_all test_recursive_fibers (installed 0) = Inr m \<and>
      run_global_scheduler m = Some (Inr m') \<and> queue m' = [] \<and> vars m' = 3 \<and>
      distinct (stacks m') \<and> set (stacks m') = {..<length (heap m')}"
proof -
  let ?i = "installed (0::int)"
  have r: "ready ?i"
    by (simp add: ready_def owned_def installed_def initial_def queue_def)
  have c: "counters ?i"
    by (simp add: counters_def installed_def initial_def queue_def)
  have o: "owed ?i = 0"
    by (simp add: owed_def installed_def initial_def queue_def)
  have f: "\<forall>f \<in> set test_recursive_fibers. counting f"
    by (simp add: test_recursive_fibers_def)
  have v: "vars ?i = 0"
    by (simp add: installed_def initial_def)
  have u: "sum_list (map updates test_recursive_fibers) = 3"
    by (simp add: test_recursive_fibers_def)
  note t = nested_scheduling_drains [where ?m0.0 = ?i and fs = test_recursive_fibers
      and ?n0.0 = ?i and gs = test_recursive_fibers]
  from r c f have "ready ?i \<and> counters ?i \<and> (\<forall>f \<in> set test_recursive_fibers. counting f) \<and>
      - 2147483648 \<le> vars ?i \<and>
      vars ?i + int (owed ?i) + int (sum_list (map updates test_recursive_fibers)) \<le> 2147483647"
    unfolding o v u by simp
  from t [THEN conjunct2, THEN mp, OF this] obtain n n' where
    n: "schedule_all test_recursive_fibers ?i = Inr n"
    "run_global_scheduler n = Some (Inr n')" "queue n' = []"
    "vars n' = vars ?i + int (owed ?i) + int (sum_list (map updates test_recursive_fibers))"
    by blast
  from t [THEN conjunct1, THEN mp, OF r] obtain m r' where
    m: "schedule_all test_recursive_fibers ?i = Inr m" "run_global_scheduler m = Some r'"
    "case r' of Inl e \<Rightarrow> e = AssertionFailed
     | Inr m' \<Rightarrow> queue m' = [] \<and> distinct (stacks m') \<and> set (stacks m') = {..<length (heap m')}"
    by blast
  from n(1) m(1) have "m = n" by simp
  with n(2) m(2) have "r' = Inr n'" by simp
  with m(3) have "distinct (stacks n')" "set (stacks n') = {..<length (heap n')}" by simp_all
  with n show ?thesis unfolding o v u by auto
qed

subsection \<open>C2: schedule does not run the work\<close>

text \<open>
  Claim C2. A call of \<^verbatim>\<open>schedule(w)\<close> that returns has changed neither the captured
  variables nor \<^verbatim>\<open>main_loop\<close>: it has taken one block from the pool (the most recently
  freed one, or a new one when the free list is empty), copied a \<^verbatim>\<open>FiberKeeper\<close>
  holding \<open>w\<close> and that block to the top of the block, and appended to the back of the
  ready queue a context whose \<^verbatim>\<open>eip\<close> is \<^verbatim>\<open>&run_fiber\<close> and whose \<^verbatim>\<open>esp\<close> is in
  that block. The same holds after any number of calls: the variables are as before and
  the queue has grown by one not yet started context per call. Where the ownership
  invariant holds every call returns, and what the new contexts have left to run is the
  scheduled work itself, in the order of the calls.
\<close>

theorem schedule_is_lazy:
  "(\<forall>m'. schedule w m = Inr m' \<longrightarrow>
      vars m' = vars m \<and> main_loop m' = main_loop m \<and> stacks m' = butlast (stacks m) \<and>
      (\<exists>a. a = (if stacks m = [] then length (heap m) else last (stacks m)) \<and>
           global_scheduler m' = Some (queue m @ [\<lparr>eip = RunFiber, esp = InBlock a\<rparr>]) \<and>
           top (heap m' ! a) = Some \<lparr>fiber = Some w, stack = Some a\<rparr>)) \<and>
   (\<forall>m'. schedule_all ws m = Inr m' \<longrightarrow>
      vars m' = vars m \<and>
      (\<exists>new. queue m' = queue m @ new \<and> map eip new = map (\<lambda>w. RunFiber) ws)) \<and>
   (global_scheduler m \<noteq> None \<and> owned held m \<longrightarrow>
      (\<exists>m' new. schedule_all ws m = Inr m' \<and> queue m' = queue m @ new \<and>
          map (pending (heap m')) new = map Some ws))"
proof (intro conjI allI impI)
  fix m' assume s: "schedule w m = Inr m'"
  from schedule_Inr [OF s] show "vars m' = vars m" "main_loop m' = main_loop m"
    "stacks m' = butlast (stacks m)"
    "\<exists>a. a = (if stacks m = [] then length (heap m) else last (stacks m)) \<and>
           global_scheduler m' = Some (queue m @ [\<lparr>eip = RunFiber, esp = InBlock a\<rparr>]) \<and>
           top (heap m' ! a) = Some \<lparr>fiber = Some w, stack = Some a\<rparr>"
    by blast+
next
  fix m' assume s: "schedule_all ws m = Inr m'"
  from schedule_all_Inr [OF s] show "vars m' = vars m"
    "\<exists>new. queue m' = queue m @ new \<and> map eip new = map (\<lambda>w. RunFiber) ws"
    by blast+
next
  assume a: "global_scheduler m \<noteq> None \<and> owned held m"
  then have g: "global_scheduler m \<noteq> None" and o: "owned held m" by simp_all
  from schedule_all_owned [OF g o, of ws]
  show "\<exists>m' new. schedule_all ws m = Inr m' \<and> queue m' = queue m @ new \<and>
          map (pending (heap m')) new = map Some ws"
    by blast
qed

text \<open>
  The instance of \<^verbatim>\<open>test_yield_one\<close>, whose \<^verbatim>\<open>assert(x == 0)\<close> stands between
  \<^verbatim>\<open>schedule\<close> and \<^verbatim>\<open>run_global_scheduler\<close>.
\<close>

theorem schedule_leaves_counter_zero:
  "\<exists>m a. schedule test_yield_one_fiber (installed 0) = Inr m \<and> vars m = 0 \<and>
      global_scheduler m = Some [\<lparr>eip = RunFiber, esp = InBlock a\<rparr>] \<and>
      top (heap m ! a) = Some \<lparr>fiber = Some test_yield_one_fiber, stack = Some a\<rparr>"
proof -
  let ?m = "installed (0::int)"
  have g: "global_scheduler ?m \<noteq> None" by (simp add: installed_def)
  have o: "owned [] ?m" by (simp add: owned_def installed_def initial_def queue_def)
  have v: "vars ?m = 0" by (simp add: installed_def initial_def)
  have q: "queue ?m = []" by (simp add: installed_def queue_def)
  note lazy = schedule_is_lazy [of test_yield_one_fiber ?m "[test_yield_one_fiber]" "[]"]
  from lazy g o obtain m where "schedule_all [test_yield_one_fiber] ?m = Inr m" by blast
  then have s: "schedule test_yield_one_fiber ?m = Inr m" by (simp split: sum.splits)
  with lazy show ?thesis unfolding v q by auto
qed

subsection \<open>C3: first in, first out\<close>

text \<open>
  Claim C3. A \<^verbatim>\<open>yield\<close> in a running fiber appends the fiber's continuation to the
  back of the ready queue and changes nothing else. An activation takes the front of the
  queue; it leaves the rest of the queue in its order and appends behind it, and it ends
  either with the fiber complete or with the fiber's continuation as the last entry: a
  fiber that yields goes behind everything that was waiting and everything it scheduled.
  The context next in line runs on another stack than the one just activated, so as long
  as a second fiber is waiting no fiber runs twice in a row.

  \<^verbatim>\<open>test_yield_many\<close>: after the three calls of \<^verbatim>\<open>schedule\<close> the counter is 0; the
  drain returns without a failed assertion (each fiber asserts that it was not the last to
  run); it makes 33 activations, on the stacks 0, 1, 2, 0, 1, 2, ... in this order, so no
  two consecutive ones are of the same fiber; and the counter is 30 at the end.
\<close>

theorem yield_round_robin:
  "(running a m \<longrightarrow>
      exec a (CallYield k) m =
        Inr (m\<lparr>global_scheduler := Some (queue m @ [\<lparr>eip = Resume k, esp = InBlock a\<rparr>])\<rparr>)) \<and>
   (\<forall>m'. ready m \<and> queue m = c # q \<and> run_one m = Inr m' \<longrightarrow>
      (\<exists>new. queue m' = q @ new \<and>
         ((\<exists>b. esp c = InBlock b \<and> stacks m' \<noteq> [] \<and> last (stacks m') = b) \<or>
          (\<exists>k'. new \<noteq> [] \<and> last new = \<lparr>eip = Resume k', esp = esp c\<rparr>)))) \<and>
   (ready m \<and> queue m = c # c' # q' \<longrightarrow> esp c' \<noteq> esp c) \<and>
   (\<exists>m t m'. schedule_all test_yield_many_fibers (installed \<lparr>x = 0, cur_fiber = - 1\<rparr>) = Inr m \<and>
      x (vars m) = 0 \<and>
      FiberScheduler_run m = Some (Inr m') \<and>
      activations [] m = Some (t, Inr m') \<and>
      map esp t = concat (replicate 11 [InBlock 0, InBlock 1, InBlock 2]) \<and>
      alternating (map esp t) \<and>
      x (vars m') = 30 \<and> queue m' = [])"
proof (intro conjI allI impI)
  assume "running a m"
  then show "exec a (CallYield k) m =
        Inr (m\<lparr>global_scheduler := Some (queue m @ [\<lparr>eip = Resume k, esp = InBlock a\<rparr>])\<rparr>)"
    by (simp add: yield_running)
next
  fix m' assume "ready m \<and> queue m = c # q \<and> run_one m = Inr m'"
  then show "\<exists>new. queue m' = q @ new \<and>
         ((\<exists>b. esp c = InBlock b \<and> stacks m' \<noteq> [] \<and> last (stacks m') = b) \<or>
          (\<exists>k'. new \<noteq> [] \<and> last new = \<lparr>eip = Resume k', esp = esp c\<rparr>))"
    using run_one_rotates by blast
next
  assume "ready m \<and> queue m = c # c' # q'"
  then show "esp c' \<noteq> esp c" using next_in_line by blast
next
  show "\<exists>m t m'. schedule_all test_yield_many_fibers (installed \<lparr>x = 0, cur_fiber = - 1\<rparr>) = Inr m \<and>
      x (vars m) = 0 \<and>
      FiberScheduler_run m = Some (Inr m') \<and>
      activations [] m = Some (t, Inr m') \<and>
      map esp t = concat (replicate 11 [InBlock 0, InBlock 1, InBlock 2]) \<and>
      alternating (map esp t) \<and>
      x (vars m') = 30 \<and> queue m' = []"
    by (rule test_yield_many_trace)
qed

text \<open>
  The first activation of \<^verbatim>\<open>test_yield_many\<close>: fiber 1 ends up behind fibers 2 and 3.
\<close>

theorem test_yield_many_first_round:
  "\<exists>m m1 new k'.
      schedule_all test_yield_many_fibers (installed \<lparr>x = 0, cur_fiber = - 1\<rparr>) = Inr m \<and>
      map esp (queue m) = [InBlock 0, InBlock 1, InBlock 2] \<and>
      run_one m = Inr m1 \<and>
      queue m1 = tl (queue m) @ new \<and> new \<noteq> [] \<and>
      last new = \<lparr>eip = Resume k', esp = InBlock 0\<rparr> \<and>
      esp (hd (queue m1)) \<noteq> InBlock 0"
proof -
  let ?i = "installed \<lparr>x = 0, cur_fiber = - 1\<rparr>"
  let ?m = "?i\<lparr>global_scheduler :=
        Some [\<lparr>eip = RunFiber, esp = InBlock 0\<rparr>, \<lparr>eip = RunFiber, esp = InBlock 1\<rparr>,
              \<lparr>eip = RunFiber, esp = InBlock 2\<rparr>],
      heap := [\<lparr>bytes = STACK_SIZE, top = Some \<lparr>fiber = Some (create_fiber 1), stack = Some 0\<rparr>\<rparr>,
               \<lparr>bytes = STACK_SIZE, top = Some \<lparr>fiber = Some (create_fiber 2), stack = Some 1\<rparr>\<rparr>,
               \<lparr>bytes = STACK_SIZE, top = Some \<lparr>fiber = Some (create_fiber 3), stack = Some 2\<rparr>\<rparr>]\<rparr>"
  let ?c = "\<lparr>eip = RunFiber, esp = InBlock 0\<rparr> :: yield_many_vars Context"
  let ?c' = "\<lparr>eip = RunFiber, esp = InBlock 1\<rparr> :: yield_many_vars Context"
  let ?q = "[\<lparr>eip = RunFiber, esp = InBlock 2\<rparr>] :: yield_many_vars Context list"
  have s: "schedule_all test_yield_many_fibers ?i = Inr ?m"
    by (simp add: test_yield_many_fibers_def machine_defs)
  have q: "queue ?m = ?c # ?c' # ?q" by (simp add: queue_def)
  have r: "ready ?m"
    by (auto simp: ready_def owned_def installed_def initial_def queue_def pending_def
        lessThan_Suc numeral_3_eq_3)
  have e: "\<exists>m1. run_one ?m = Inr m1"
    by (simp add: machine_defs create_fiber_def ITERS_def eval_nat_numeral)
  then obtain m1 where m1: "run_one ?m = Inr m1" by blast
  from r q m1 have h: "ready ?m \<and> queue ?m = ?c # (?c' # ?q) \<and> run_one ?m = Inr m1" by simp
  from yield_round_robin [where m = ?m and c = ?c and q = "?c' # ?q", THEN conjunct2,
      THEN conjunct1, THEN spec, THEN mp, OF h]
  obtain new where n: "queue m1 = (?c' # ?q) @ new"
    "(\<exists>b. esp ?c = InBlock b \<and> stacks m1 \<noteq> [] \<and> last (stacks m1) = b) \<or>
     (\<exists>k'. new \<noteq> [] \<and> last new = \<lparr>eip = Resume k', esp = esp ?c\<rparr>)"
    by blast
  have "stacks m1 = []" using m1
    by (simp add: machine_defs create_fiber_def ITERS_def eval_nat_numeral) auto
  with n(2) obtain k' where k': "new \<noteq> []" "last new = \<lparr>eip = Resume k', esp = InBlock 0\<rparr>"
    by auto
  from r q have "ready ?m \<and> queue ?m = ?c # ?c' # ?q" by simp
  from yield_round_robin [where m = ?m and c = ?c and c' = ?c' and q' = ?q, THEN conjunct2,
      THEN conjunct2, THEN conjunct1, THEN mp, OF this]
  have "esp ?c' \<noteq> esp ?c" .
  with n(1) have hd: "esp (hd (queue m1)) \<noteq> InBlock 0" by simp
  have t: "queue m1 = tl (queue ?m) @ new" using n(1) q by simp
  have mq: "map esp (queue ?m) = [InBlock 0, InBlock 1, InBlock 2]" by (simp add: queue_def)
  from s mq m1 t k' hd show ?thesis
    by (intro exI [of _ ?m] exI [of _ m1] exI [of _ new] exI [of _ k'] conjI)
qed

subsection \<open>C4: the free functions without a scheduler\<close>

text \<open>
  Claim C4, evaluated where it fails. Before \<^verbatim>\<open>init_global_scheduler\<close> the free
  functions \<^verbatim>\<open>schedule\<close> and \<^verbatim>\<open>yield\<close> throw the \<^verbatim>\<open>std::runtime_error\<close>
  \<^verbatim>\<open>"Global scheduler is empty"\<close>, and after installing a scheduler a call of
  \<^verbatim>\<open>schedule\<close> returns. \<^verbatim>\<open>run_global_scheduler\<close> has no such check: it calls
  \<^verbatim>\<open>run\<close> through the null pointer.
\<close>

theorem run_global_scheduler_unchecked:
  "run_global_scheduler (initial g) = Some (Inl NullDereference) \<and>
   schedule w (initial g) = Inl (RuntimeError ''Global scheduler is empty'') \<and>
   yield c (initial g) = Inl (RuntimeError ''Global scheduler is empty'') \<and>
   init_global_scheduler (initial g) = Inr (installed g) \<and>
   (\<exists>m. schedule w (installed g) = Inr m)"
  by (simp add: run_global_scheduler_def schedule_def yield_def initial_def
      init_global_scheduler_def installed_def queue_def FiberScheduler_schedule_def
      FiberKeeper_new_def alloc_def calloc_def poke_def FiberKeeper_destroy_def)

subsection \<open>C5: a fiber that yields in every iteration\<close>

text \<open>
  Claim C5. Schedule, in a state between two activations with nothing queued, one fiber that
  runs \<^verbatim>\<open>for (i = 0; i != n; ++i) { ++x; yield(); }\<close>. After \<^verbatim>\<open>schedule\<close> the
  counter is what it was; the drain then returns, with an empty queue, and the counter has
  grown by exactly \<open>n\<close>: no iteration is lost and none runs twice. The counter and the
  loop index are 32-bit \<^verbatim>\<open>int\<close>s: the start value is an \<^verbatim>\<open>int\<close>, \<open>n\<close> is at most
  2147483647, and so is the start value plus \<open>n\<close>. The test has \<open>n = 10\<close> and starts
  the counter at 0.
\<close>

theorem yielding_fiber_counts:
  assumes "ready m0" and "queue m0 = []"
    and "- 2147483648 \<le> vars m0" and "int n \<le> 2147483647"
    and "vars m0 + int n \<le> 2147483647"
  shows "\<exists>m m'. schedule (for_loop n (\<lambda>k. Update increment (CallYield k)) Return) m0 = Inr m \<and>
           vars m = vars m0 \<and>
           run_global_scheduler m = Some (Inr m') \<and>
           vars m' = vars m0 + int n \<and> queue m' = []"
proof -
  let ?f = "for_loop n (\<lambda>k. Update increment (CallYield k)) Return"
  have c0: "counters m0" using assms(2) by (simp add: counters_def)
  have o0: "owed m0 = 0" using assms(2) by (simp add: owed_def)
  have f: "\<forall>f \<in> set [?f]. counting f" using yield_loop_counting [of n] by simp
  from schedule_all_counting [OF assms(1) c0 f] obtain m where
    m: "schedule_all [?f] m0 = Inr m" "ready m" "counters m"
       "vars m = vars m0" "owed m = owed m0 + sum_list (map updates [?f])"
    by blast
  from m(1) have s: "schedule ?f m0 = Inr m" by (simp split: sum.splits)
  from m(5) o0 yield_loop_counting [of n] have o: "owed m = n" by simp
  have bm: "vars m + int (owed m) \<le> 2147483647" using assms(5) m(4) o by simp
  from run_counting [OF m(2,3) bm] obtain m' where
    d: "FiberScheduler_run m = Some (Inr m')" "queue m' = []" "vars m' = vars m + int (owed m)"
    by blast
  from m(2) d(1) have g: "run_global_scheduler m = Some (Inr m')"
    by (auto simp: run_global_scheduler_def ready_def)
  show ?thesis using s m(4) g d(2,3) o by auto
qed

text \<open>
  \<^verbatim>\<open>test_yield_one\<close>: 0 before the drain, 10 after it.
\<close>

theorem test_yield_one_counts_ten:
  "\<exists>m m'. schedule test_yield_one_fiber (installed 0) = Inr m \<and> vars m = 0 \<and>
      run_global_scheduler m = Some (Inr m') \<and> vars m' = 10"
proof -
  let ?m = "installed (0::int)"
  have r: "ready ?m" by (simp add: ready_def owned_def installed_def initial_def queue_def)
  have q: "queue ?m = []" by (simp add: installed_def queue_def)
  have v: "vars ?m = 0" by (simp add: installed_def initial_def)
  have b: "- 2147483648 \<le> vars ?m" "int ITERS \<le> 2147483647"
    "vars ?m + int ITERS \<le> 2147483647" unfolding v by (simp_all add: ITERS_def)
  from yielding_fiber_counts [OF r q b] show ?thesis
    unfolding v test_yield_one_fiber_def by (auto simp: ITERS_def)
qed

subsection \<open>C6: every stack block has one owner\<close>

text \<open>
  Claim C6. \<open>owned held m\<close> says that every block of the heap is in exactly one place,
  once: the free list, the \<^verbatim>\<open>FiberKeeper\<close> at the top of the stack of one queued fiber
  (which holds that very block), or the running fiber (\<open>held\<close>). It holds when the
  scheduler is installed and is kept by every step of the model: by \<^verbatim>\<open>schedule\<close>,
  called from anywhere; by the statements of a fiber body up to the switch back to the
  scheduler; by an activation; and by a whole drain, after which every block is in the
  free list, once.

  The free list changes in three places only. \<^verbatim>\<open>schedule\<close> takes its last entry (or
  none, when it is empty) and adds nothing: the destructor of its zeroed local frees
  nothing. A \<^verbatim>\<open>yield\<close> leaves it as it is. The end of \<^verbatim>\<open>run_fiber\<close> appends the
  fiber's block. So an activation either ends with the fiber's block appended to the free
  list and absent from the queue, or with the fiber's continuation at the back of the
  queue and its block absent from the free list.

  The move constructor hands the stack to the new object and leaves the old one with
  \<^verbatim>\<open>nullptr\<close>, and the destructor of the old one then changes nothing.

  The steps of the model are the calls of \<^verbatim>\<open>schedule\<close>, the statements of a body and
  the switches; what holds between two lines of \<^verbatim>\<open>schedule\<close> is not stated.
\<close>

theorem stacks_have_one_owner:
  "owned [] (installed g) \<and>
   (\<forall>m'. owned held m \<and> schedule w m = Inr m' \<longrightarrow>
      owned held m' \<and> stacks m' = butlast (stacks m)) \<and>
   (\<forall>m'. running a m \<and> exec a k m = Inr m' \<longrightarrow> ready m') \<and>
   (\<forall>m'. running a m \<and> exec a (CallYield k) m = Inr m' \<longrightarrow> stacks m' = stacks m) \<and>
   (\<forall>m'. running a m \<and> exec a Return m = Inr m' \<longrightarrow> stacks m' = stacks m @ [a]) \<and>
   (\<forall>m'. ready m \<and> queue m = c # q \<and> run_one m = Inr m' \<longrightarrow>
      ready m' \<and>
      (\<exists>b. esp c = InBlock b \<and>
         ((stacks m' \<noteq> [] \<and> last (stacks m') = b \<and> b \<notin> set (fiber_stacks (queue m'))) \<or>
          (\<exists>k'. queue m' \<noteq> [] \<and> last (queue m') = \<lparr>eip = Resume k', esp = InBlock b\<rparr> \<and>
                b \<notin> set (stacks m'))))) \<and>
   (\<forall>m'. ready m \<and> FiberScheduler_run m = Some (Inr m') \<longrightarrow>
      ready m' \<and> queue m' = [] \<and> distinct (stacks m') \<and>
      set (stacks m') = {..<length (heap m')}) \<and>
   stack (fst (FiberKeeper_move fk)) = stack fk \<and>
   stack (snd (FiberKeeper_move fk)) = None \<and>
   FiberKeeper_destroy (snd (FiberKeeper_move fk)) m = m"
proof (intro conjI allI impI)
  show "owned [] (installed g)"
    by (simp add: owned_def installed_def initial_def queue_def)
next
  fix m' assume h: "owned held m \<and> schedule w m = Inr m'"
  then have o: "owned held m" and s: "schedule w m = Inr m'" by simp_all
  from schedule_Inr [OF s] have g: "global_scheduler m \<noteq> None" by blast
  from schedule_owned [OF g o, of w] s
  show "owned held m'" "stacks m' = butlast (stacks m)" by auto
next
  fix m' assume "running a m \<and> exec a k m = Inr m'"
  then show "ready m'" using exec_sound by blast
next
  fix m' assume "running a m \<and> exec a (CallYield k) m = Inr m'"
  then show "stacks m' = stacks m" by (auto simp: yield_running)
next
  fix m' assume "running a m \<and> exec a Return m = Inr m'"
  then show "stacks m' = stacks m @ [a]" by (auto simp: leave_running)
next
  fix m' assume h: "ready m \<and> queue m = c # q \<and> run_one m = Inr m'"
  then have r: "ready m" and qm: "queue m = c # q" and e: "run_one m = Inr m'" by simp_all
  from run_one_sound [OF r qm e] show "ready m'" by simp
  from run_one_outcome [OF r qm e]
  show "\<exists>b. esp c = InBlock b \<and>
         ((stacks m' \<noteq> [] \<and> last (stacks m') = b \<and> b \<notin> set (fiber_stacks (queue m'))) \<or>
          (\<exists>k'. queue m' \<noteq> [] \<and> last (queue m') = \<lparr>eip = Resume k', esp = InBlock b\<rparr> \<and>
                b \<notin> set (stacks m')))" .
next
  fix m' assume h: "ready m \<and> FiberScheduler_run m = Some (Inr m')"
  then have r: "ready m" and f: "FiberScheduler_run m = Some (Inr m')" by simp_all
  from run_ready [OF r f] show r': "ready m'" .
  from run_Inr [OF f] show q': "queue m' = []" by simp
  from r' q' show "distinct (stacks m')" "set (stacks m') = {..<length (heap m')}"
    by (simp_all add: ready_def owned_def)
qed (simp_all add: FiberKeeper_move_def FiberKeeper_destroy_def)

text \<open>
  In \<^verbatim>\<open>test_recursive\<close>: the invariant after the first \<^verbatim>\<open>schedule\<close>, a state in
  which the first fiber runs, the state after its activation, and the end of the drain.
\<close>

theorem test_recursive_returns_every_stack:
  "\<exists>m0 a m m1 m'.
      schedule (hd test_recursive_fibers) (installed 0) = Inr m0 \<and> owned [] m0 \<and>
      schedule_all test_recursive_fibers (installed 0) = Inr m \<and>
      running a (m\<lparr>global_scheduler := Some (tl (queue m)), main_loop := scheduler_context\<rparr>) \<and>
      run_one m = Inr m1 \<and> ready m1 \<and>
      FiberScheduler_run m = Some (Inr m') \<and> queue m' = [] \<and>
      distinct (stacks m') \<and> set (stacks m') = {..<length (heap m')}"
proof -
  let ?i = "installed (0::int)"
  note own = stacks_have_one_owner
  have r: "ready ?i" by (simp add: ready_def owned_def installed_def initial_def queue_def)
  then have g: "global_scheduler ?i \<noteq> None" and o: "owned [] ?i" by (simp_all add: ready_def)
  have c: "counters ?i" by (simp add: counters_def installed_def initial_def queue_def)
  have f: "\<forall>f \<in> set test_recursive_fibers. counting f"
    by (simp add: test_recursive_fibers_def)
  from schedule_owned [OF g o, of "hd test_recursive_fibers"] obtain m0 where
    s0: "schedule (hd test_recursive_fibers) ?i = Inr m0" by blast
  with o have "owned [] ?i \<and> schedule (hd test_recursive_fibers) ?i = Inr m0" by simp
  from own [where held = "[]" and m = ?i and w = "hd test_recursive_fibers",
      THEN conjunct2, THEN conjunct1, THEN spec, THEN mp, OF this]
  have o0: "owned [] m0" by simp
  from schedule_all_counting [OF r c f] obtain m where
    m: "schedule_all test_recursive_fibers ?i = Inr m" "ready m" "counters m"
       "vars m = vars ?i" "owed m = owed ?i + sum_list (map updates test_recursive_fibers)"
    by blast
  have bm: "vars m + int (owed m) \<le> 2147483647" unfolding m(4,5)
    by (simp add: installed_def initial_def owed_def queue_def test_recursive_fibers_def)
  from schedule_all_Inr [OF m(1)] obtain new where
    "queue m = queue ?i @ new" "map eip new = map (\<lambda>w. RunFiber) test_recursive_fibers"
    by blast
  then have "length (queue m) = 3"
    using length_map [of eip new] by (simp add: installed_def queue_def test_recursive_fibers_def)
  then obtain c' q where q: "queue m = c' # q" by (cases "queue m") auto
  let ?m = "m\<lparr>global_scheduler := Some q, main_loop := scheduler_context\<rparr>"
  from run_one_exec [OF m(2) q] obtain a k where
    x: "pending (heap m) c' = Some k" "run_one m = exec a k ?m" "running a ?m" by blast
  have ck: "counting k" using m(3) q x(1) by (auto simp: counters_def)
  have qm: "queue ?m = q" by (simp add: queue_def)
  have cm: "counters ?m" using m(3) q unfolding counters_def qm by simp
  have om: "owed m = updates k + owed ?m"
    using q x(1) unfolding owed_def qm by (simp add: due_def)
  have bk: "vars ?m + int (updates k) + int (owed ?m) \<le> 2147483647" using bm om by simp
  from exec_counting [OF x(3) ck cm bk] obtain m1 where e: "exec a k ?m = Inr m1" by blast
  with x(2) have r1: "run_one m = Inr m1" by simp
  from x(3) e have "running a ?m \<and> exec a k ?m = Inr m1" by simp
  from own [where m = ?m and a = a and k = k, THEN conjunct2, THEN conjunct2, THEN conjunct1,
      THEN spec, THEN mp, OF this]
  have rm1: "ready m1" .
  from run_counting [OF m(2,3) bm] obtain m' where
    d: "FiberScheduler_run m = Some (Inr m')" by blast
  from m(2) d have h: "ready m \<and> FiberScheduler_run m = Some (Inr m')" by simp
  note t = own [where m = m, THEN conjunct2, THEN conjunct2, THEN conjunct2,
      THEN conjunct2, THEN conjunct2, THEN conjunct2, THEN conjunct1, THEN spec, THEN mp, OF h]
  from x(3) q have "running a (m\<lparr>global_scheduler := Some (tl (queue m)),
      main_loop := scheduler_context\<rparr>)" by simp
  with s0 o0 m(1) r1 rm1 d t show ?thesis by blast
qed

subsection \<open>C7: the stack pool\<close>

text \<open>
  Claim C7. With a non-empty free list \<^verbatim>\<open>alloc\<close> returns the block that was freed
  last and removes it from the list; nothing else changes, so no memory is allocated and
  the block keeps the content it had. With an empty free list it returns a new block of
  1024 * 1024 zero bytes. \<^verbatim>\<open>free\<close> appends the block to the free list and changes
  nothing else. Two frees followed by an \<^verbatim>\<open>alloc\<close> give back the second block and
  leave the first in the list. Where the free list holds blocks of the heap and all blocks
  have the fixed size, the block \<^verbatim>\<open>alloc\<close> returns is a block of the heap of that size,
  and the pool stays so.
\<close>

theorem stack_pool_contract:
  "(stacks m \<noteq> [] \<longrightarrow> alloc m = (last (stacks m), m\<lparr>stacks := butlast (stacks m)\<rparr>)) \<and>
   (stacks m = [] \<longrightarrow>
      alloc m = (length (heap m), m\<lparr>heap := heap m @ [\<lparr>bytes = 1024 * 1024, top = None\<rparr>]\<rparr>)) \<and>
   free a m = m\<lparr>stacks := stacks m @ [a]\<rparr> \<and>
   alloc (free b (free a m)) = (b, free a m) \<and>
   (pool_blocks m \<longrightarrow>
      (case alloc m of (a', m') \<Rightarrow>
         a' < length (heap m') \<and> bytes (heap m' ! a') = 1024 * 1024 \<and> pool_blocks m')) \<and>
   (pool_blocks m \<and> a < length (heap m) \<longrightarrow> pool_blocks (free a m))"
proof (intro conjI impI)
  assume "pool_blocks m"
  from alloc_pool_blocks [OF this]
  show "case alloc m of (a', m') \<Rightarrow>
         a' < length (heap m') \<and> bytes (heap m' ! a') = 1024 * 1024 \<and> pool_blocks m'"
    by (simp add: STACK_SIZE_def)
next
  show "alloc (free b (free a m)) = (b, free a m)" by (rule alloc_after_free)
qed (auto simp: alloc_def calloc_def free_def STACK_SIZE_def pool_blocks_def)

text \<open>
  Both branches of \<^verbatim>\<open>alloc\<close>: a first allocation, and one that recycles a block
  whose top still holds an old \<^verbatim>\<open>FiberKeeper\<close>.
\<close>

theorem stack_pool_recycles:
  "alloc (initial ()) =
     (0, (initial ())\<lparr>heap := [\<lparr>bytes = 1024 * 1024, top = None\<rparr>]\<rparr>) \<and>
   alloc ((initial ())\<lparr>stacks := [0, 1],
            heap := [\<lparr>bytes = 1024 * 1024, top = None\<rparr>,
                     \<lparr>bytes = 1024 * 1024, top = Some \<lparr>fiber = Some Return, stack = Some 1\<rparr>\<rparr>]\<rparr>) =
     (1, (initial ())\<lparr>stacks := [0],
            heap := [\<lparr>bytes = 1024 * 1024, top = None\<rparr>,
                     \<lparr>bytes = 1024 * 1024, top = Some \<lparr>fiber = Some Return, stack = Some 1\<rparr>\<rparr>]\<rparr>) \<and>
   pool_blocks (free 0 (snd (alloc (initial ()))))"
proof (intro conjI)
  let ?m = "initial ()"
  have e: "stacks ?m = []" "heap ?m = []" by (simp_all add: initial_def)
  note c = stack_pool_contract [where m = ?m and a = 0 and b = 0]
  from c [THEN conjunct2, THEN conjunct1, THEN mp, OF e(1)] e(2)
  show "alloc ?m = (0, ?m\<lparr>heap := [\<lparr>bytes = 1024 * 1024, top = None\<rparr>]\<rparr>)" by simp
  let ?h = "[\<lparr>bytes = 1024 * 1024, top = None\<rparr>,
             \<lparr>bytes = 1024 * 1024, top = Some \<lparr>fiber = Some Return, stack = Some 1\<rparr>\<rparr>]
            :: unit StackBlock list"
  let ?n = "?m\<lparr>stacks := [0, 1], heap := ?h\<rparr>"
  have n: "stacks ?n \<noteq> []" by simp
  from stack_pool_contract [where m = ?n and a = 0 and b = 0, THEN conjunct1, THEN mp, OF n]
  show "alloc ?n = (1, ?m\<lparr>stacks := [0], heap := ?h\<rparr>)" by simp
  have p: "pool_blocks ?m" by (simp add: pool_blocks_def initial_def)
  note a = c [THEN conjunct2, THEN conjunct2, THEN conjunct2, THEN conjunct2, THEN conjunct1,
      THEN mp, OF p]
  then have q: "pool_blocks (snd (alloc ?m)) \<and> 0 < length (heap (snd (alloc ?m)))"
    by (auto simp: alloc_def calloc_def initial_def split: prod.splits)
  from stack_pool_contract [where m = "snd (alloc ?m)" and a = 0 and b = 0, THEN conjunct2,
      THEN conjunct2, THEN conjunct2, THEN conjunct2, THEN conjunct2, THEN mp, OF q]
  show "pool_blocks (free 0 (snd (alloc ?m)))" .
qed

subsection \<open>C8: a freed stack is the next one handed out\<close>

text \<open>
  Claim C8. An \<^verbatim>\<open>alloc\<close> right after \<^verbatim>\<open>free(b)\<close> returns \<open>b\<close> and puts the pool back
  in the state before the \<^verbatim>\<open>free\<close>, whatever that state was. So a \<^verbatim>\<open>schedule\<close> that
  follows the \<^verbatim>\<open>free\<close> of a block puts the new fiber on that block, and allocates
  nothing. In particular, when an activation ends with the fiber complete (its block \<open>a\<close>
  is in the free list), the next \<^verbatim>\<open>schedule\<close> gives the new fiber the block \<open>a\<close> and
  the heap does not grow.
\<close>

theorem freed_stack_is_reused:
  "alloc (free b m) = (b, m) \<and>
   (global_scheduler m \<noteq> None \<and> b < length (heap m) \<longrightarrow>
      (\<exists>m'. schedule w (free b m) = Inr m' \<and>
         queue m' = queue m @ [\<lparr>eip = RunFiber, esp = InBlock b\<rparr>] \<and>
         stacks m' = stacks m \<and> length (heap m') = length (heap m))) \<and>
   (ready m \<and> queue m = c # q \<and> esp c = InBlock a \<and> run_one m = Inr m1 \<and>
    a \<in> set (stacks m1) \<longrightarrow>
      (\<exists>m2. schedule w m1 = Inr m2 \<and>
         queue m2 = queue m1 @ [\<lparr>eip = RunFiber, esp = InBlock a\<rparr>] \<and>
         length (heap m2) = length (heap m1)))"
proof (intro conjI impI)
  show "alloc (free b m) = (b, m)" by (rule alloc_after_free)
next
  assume a: "global_scheduler m \<noteq> None \<and> b < length (heap m)"
  then obtain q' where q': "global_scheduler m = Some q'" by auto
  have "schedule w (free b m) =
      Inr ((free b m)\<lparr>stacks := butlast (stacks (free b m)),
            heap := (heap (free b m))[last (stacks (free b m)) :=
                      (heap (free b m) ! last (stacks (free b m)))
                        \<lparr>top := Some \<lparr>fiber = Some w, stack = Some (last (stacks (free b m)))\<rparr>\<rparr>],
            global_scheduler := Some (q' @ [\<lparr>eip = RunFiber, esp = InBlock (last (stacks (free b m)))\<rparr>])\<rparr>)"
    using a q' by (intro schedule_reuse) (simp_all add: free_def)
  then show "\<exists>m'. schedule w (free b m) = Inr m' \<and>
         queue m' = queue m @ [\<lparr>eip = RunFiber, esp = InBlock b\<rparr>] \<and>
         stacks m' = stacks m \<and> length (heap m') = length (heap m)"
    using q' by (simp add: free_def queue_def)
next
  assume h: "ready m \<and> queue m = c # q \<and> esp c = InBlock a \<and> run_one m = Inr m1 \<and>
    a \<in> set (stacks m1)"
  then have r: "ready m" and qm: "queue m = c # q" and e: "run_one m = Inr m1"
    and c: "esp c = InBlock a" and s: "a \<in> set (stacks m1)" by simp_all
  from run_one_outcome [OF r qm e] c s have l: "stacks m1 \<noteq> []" "last (stacks m1) = a"
    by auto
  from run_one_sound [OF r qm e] have "ready m1" by simp
  then have g: "global_scheduler m1 \<noteq> None" and o: "owned [] m1" by (simp_all add: ready_def)
  from schedule_owned [OF g o, of w] l
  show "\<exists>m2. schedule w m1 = Inr m2 \<and>
         queue m2 = queue m1 @ [\<lparr>eip = RunFiber, esp = InBlock a\<rparr>] \<and>
         length (heap m2) = length (heap m1)"
    by auto
qed

text \<open>
  One fiber runs to completion on block 0; the fiber scheduled next gets block 0, and the
  heap still has one block.
\<close>

theorem completed_fiber_hands_on_its_stack:
  "\<exists>m m1 m2. schedule (Update increment Return) (installed 0) = Inr m \<and>
      queue m = [\<lparr>eip = RunFiber, esp = InBlock 0\<rparr>] \<and>
      run_one m = Inr m1 \<and> stacks m1 = [0] \<and> vars m1 = 1 \<and>
      schedule (Update increment Return) m1 = Inr m2 \<and>
      queue m2 = [\<lparr>eip = RunFiber, esp = InBlock 0\<rparr>] \<and> length (heap m2) = 1"
proof -
  let ?f = "Update increment Return :: int Fiber"
  let ?m0 = "installed (0::int)"
  let ?c = "\<lparr>eip = RunFiber, esp = InBlock 0\<rparr> :: int Context"
  have r0: "ready ?m0" by (simp add: ready_def owned_def installed_def initial_def queue_def)
  then have g0: "global_scheduler ?m0 \<noteq> None" and o0: "owned [] ?m0"
    by (simp_all add: ready_def)
  from schedule_owned [OF g0 o0, of ?f] obtain m where
    m: "schedule ?f ?m0 = Inr m" "owned [] m" "global_scheduler m \<noteq> None" "queue m = [?c]"
    by (auto simp: installed_def initial_def queue_def)
  then have rm: "ready m" by (simp add: ready_def)
  have "schedule ?f ?m0 = Inr (?m0\<lparr>heap := heap ?m0 @
      [\<lparr>bytes = STACK_SIZE, top = Some \<lparr>fiber = Some ?f, stack = Some (length (heap ?m0))\<rparr>\<rparr>],
      global_scheduler := Some ([] @ [\<lparr>eip = RunFiber, esp = InBlock (length (heap ?m0))\<rparr>])\<rparr>)"
    by (rule schedule_fresh) (simp_all add: installed_def initial_def)
  with m(1) have mdef: "m = ?m0\<lparr>heap := heap ?m0 @
      [\<lparr>bytes = STACK_SIZE, top = Some \<lparr>fiber = Some ?f, stack = Some (length (heap ?m0))\<rparr>\<rparr>],
      global_scheduler := Some ([] @ [\<lparr>eip = RunFiber, esp = InBlock (length (heap ?m0))\<rparr>])\<rparr>"
    by simp
  let ?m1 = "m\<lparr>global_scheduler := Some [], main_loop := \<lparr>eip = Unreachable, esp = InBlock 0\<rparr>,
      stacks := [0], vars := 1\<rparr>"
  have e: "run_one m = Inr ?m1"
    unfolding mdef
    by (simp add: installed_def initial_def run_one_def queue_def switch_context_def enter_def
        run_fiber_def peek_def leave_def FiberKeeper_destroy_def free_def scheduler_context_def
        in_run_loop_def increment_def)
  have h: "ready m \<and> queue m = ?c # [] \<and> esp ?c = InBlock 0 \<and> run_one m = Inr ?m1 \<and>
      0 \<in> set (stacks ?m1)"
    using rm m(4) e by simp
  from freed_stack_is_reused [where m = m and c = ?c and q = "[]" and a = 0 and ?m1.0 = ?m1
      and w = ?f and b = 0, THEN conjunct2, THEN conjunct2, THEN mp, OF h]
  obtain m2 where "schedule ?f ?m1 = Inr m2" "queue m2 = queue ?m1 @ [?c]"
    "length (heap m2) = length (heap ?m1)" by blast
  moreover have "queue ?m1 = []" by (simp add: queue_def)
  moreover have "length (heap ?m1) = 1" unfolding mdef by (simp add: installed_def initial_def)
  ultimately show ?thesis using m(1,4) e
    by (intro exI [of _ m] exI [of _ ?m1] exI [of _ m2]) simp
qed

subsection \<open>C9: draining an empty queue\<close>

text \<open>
  Claim C9. With an empty ready queue the loop of \<^verbatim>\<open>run\<close> returns at once, without
  error, in the very state it was called in: queue, pool, memory, \<^verbatim>\<open>main_loop\<close>,
  variables and the installed instance are unchanged. This is so for the method, for
  \<^verbatim>\<open>run_global_scheduler\<close> on an installed scheduler with nothing queued, and for a
  second \<^verbatim>\<open>run_global_scheduler\<close> after one that returned, with nothing scheduled in
  between.
\<close>

theorem drain_of_empty_queue_is_noop:
  "(queue m = [] \<longrightarrow> FiberScheduler_run m = Some (Inr m)) \<and>
   (global_scheduler m = Some [] \<longrightarrow> run_global_scheduler m = Some (Inr m)) \<and>
   (\<forall>m'. run_global_scheduler m = Some (Inr m') \<longrightarrow> run_global_scheduler m' = Some (Inr m'))"
proof (intro conjI allI impI)
  assume "queue m = []"
  then show "FiberScheduler_run m = Some (Inr m)" by (rule run_empty)
next
  assume "global_scheduler m = Some []"
  then show "run_global_scheduler m = Some (Inr m)"
    by (simp add: run_global_scheduler_def run_empty queue_def)
next
  fix m' assume r: "run_global_scheduler m = Some (Inr m')"
  then have g: "global_scheduler m \<noteq> None" and f: "FiberScheduler_run m = Some (Inr m')"
    by (auto simp: run_global_scheduler_def split: if_splits)
  from run_Inr [OF f] g have "queue m' = []" "global_scheduler m' \<noteq> None" by simp_all
  then show "run_global_scheduler m' = Some (Inr m')"
    by (simp add: run_global_scheduler_def run_empty)
qed

text \<open>
  \<^verbatim>\<open>test_secret\<close> on a fresh scheduler, and after a drain that ran one fiber.
\<close>

theorem test_secret_is_noop:
  "run_global_scheduler (installed (0::int)) = Some (Inr (installed 0)) \<and>
   (\<exists>m m'. schedule (Update increment Return) (installed 0) = Inr m \<and>
      run_global_scheduler m = Some (Inr m') \<and> vars m' = 1 \<and>
      run_global_scheduler m' = Some (Inr m'))"
proof
  have "global_scheduler (installed (0::int)) = Some []" by (simp add: installed_def)
  with drain_of_empty_queue_is_noop [of "installed (0::int)"]
  show "run_global_scheduler (installed (0::int)) = Some (Inr (installed 0))" by blast
next
  let ?m = "installed (0::int)"
  have r: "ready ?m" by (simp add: ready_def owned_def installed_def initial_def queue_def)
  have c: "counters ?m" by (simp add: counters_def installed_def initial_def queue_def)
  have f: "\<forall>f \<in> set [Update increment Return]. counting f" by simp
  from schedule_all_counting [OF r c f] obtain m where
    m: "schedule_all [Update increment Return] ?m = Inr m" "ready m" "counters m"
       "vars m = vars ?m" "owed m = owed ?m + sum_list (map updates [Update increment Return])"
    by blast
  from m(1) have s: "schedule (Update increment Return) ?m = Inr m" by (simp split: sum.splits)
  have bm: "vars m + int (owed m) \<le> 2147483647" unfolding m(4,5)
    by (simp add: installed_def initial_def owed_def queue_def)
  from run_counting [OF m(2,3) bm] obtain m' where
    d: "FiberScheduler_run m = Some (Inr m')" "vars m' = vars m + int (owed m)" by blast
  from m(2) d(1) have g: "run_global_scheduler m = Some (Inr m')"
    by (auto simp: run_global_scheduler_def ready_def)
  have v: "vars m' = 1" using d(2) m(4,5)
    by (simp add: installed_def initial_def owed_def queue_def)
  from drain_of_empty_queue_is_noop [of m] g
  have "run_global_scheduler m' = Some (Inr m')" by blast
  with s g v show "\<exists>m m'. schedule (Update increment Return) (installed 0) = Inr m \<and>
      run_global_scheduler m = Some (Inr m') \<and> vars m' = 1 \<and>
      run_global_scheduler m' = Some (Inr m')" by blast
qed

end
